theory Spec2Isabelle
  imports Main
begin

section \<open>Physical-memory VFS handlers (client/vfs_handlers/memory.py)\<close>

text \<open>
  A shallow embedding of the three memory handlers of \<^verbatim>\<open>memory.py\<close>:
  \<^verbatim>\<open>LinuxMemory\<close>, \<^verbatim>\<open>WindowsMemory\<close> and \<^verbatim>\<open>OSXMemory\<close>.
  Python integers are \<^typ>\<open>int\<close>, Python 2 byte strings are \<^typ>\<open>string\<close>,
  objects are records passed in and returned updated, and every exception the code can
  raise is a value of \<open>py_error\<close>.
\<close>

subsection \<open>Errors and the acquisition device\<close>

datatype py_error =
    IOError string
  | IndexError
  | StructError
  | ZeroDivisionError
  | AttributeError
  | OverflowError
  | MemoryError

text \<open>
  The device behind a handle is external. It is modelled by the bytes it hands back to a
  read of \<open>n\<close> bytes at position \<open>p\<close> (\<open>dev_answer\<close>), its file pointer, and the list of
  calls issued to it so far (oldest first), so that theorems can speak about which device
  reads a handler performs.
\<close>

datatype dev_call = Seek_call int | Read_call int

record device =
  dev_answer :: "int \<Rightarrow> int \<Rightarrow> string"
  dev_pos :: int
  dev_calls :: "dev_call list"

text \<open>\<^verbatim>\<open>win32file.SetFilePointer(fd, offset, 0)\<close> and \<^verbatim>\<open>mem_dev.seek(offset)\<close>.\<close>

definition SetFilePointer :: "device \<Rightarrow> int \<Rightarrow> device" where
  "SetFilePointer d p = d\<lparr>dev_pos := p, dev_calls := dev_calls d @ [Seek_call p]\<rparr>"

text \<open>\<^verbatim>\<open>win32file.ReadFile(fd, to_read)\<close> and \<^verbatim>\<open>mem_dev.read(to_read)\<close>: the data, and the
  device with its pointer moved past the data.\<close>

definition ReadFile :: "device \<Rightarrow> int \<Rightarrow> string \<times> device" where
  "ReadFile d n =
     (let data = dev_answer d (dev_pos d) n
      in (data, d\<lparr>dev_pos := dev_pos d + int (length data),
                  dev_calls := dev_calls d @ [Read_call n]\<rparr>))"

text \<open>A device that is a static image of memory: a read returns the bytes of the image
  at that position, fewer than asked at the end of the image.\<close>

definition image_read :: "string \<Rightarrow> int \<Rightarrow> int \<Rightarrow> string" where
  "image_read img p n = take (nat n) (drop (nat p) img)"

text \<open>Python's \<^verbatim>\<open>"\x00" * n\<close>: empty for \<open>n \<le> 0\<close>.\<close>

definition zeros :: "int \<Rightarrow> string" where
  "zeros n = replicate (nat n) (CHR 0x00)"

subsection \<open>The handler objects\<close>

text \<open>
  \<^verbatim>\<open>MemoryVFS.__init__\<close> stores the pathspec; \<open>offset\<close> is the cursor every handler
  inherits. A run is a pair \<open>(start, length)\<close>.
\<close>

type_synonym run = "int \<times> int"

record MemoryVFS =
  pathspec :: string
  offset :: int

text \<open>\<^verbatim>\<open>WindowsMemory\<close>: \<open>win_size\<close> is its attribute \<^verbatim>\<open>size\<close>, \<open>win_fd\<close> its \<^verbatim>\<open>fd\<close>.\<close>

record WindowsMemory = MemoryVFS +
  cr3 :: int
  runs :: "run list"
  win_size :: int
  win_fd :: device

text \<open>\<^verbatim>\<open>OSXMemory\<close>: its \<^verbatim>\<open>size\<close> is a property computed from \<open>mmap\<close>.\<close>

record OSXMemory = MemoryVFS +
  mmap :: "run list"
  mem_dev :: device

subsection \<open>WindowsMemory._PartialRead and WindowsMemory.Read\<close>

text \<open>
  The \<^verbatim>\<open>for start, run_length in self.runs\<close> loop of \<^verbatim>\<open>_PartialRead\<close>, with the
  loop variable \<open>last_end\<close> as an argument. Falling off the loop returns Python's
  \<^verbatim>\<open>None\<close>.
\<close>

fun WindowsMemory_PartialRead_loop ::
  "WindowsMemory \<Rightarrow> int \<Rightarrow> int \<Rightarrow> run list \<Rightarrow> string option \<times> WindowsMemory" where
  "WindowsMemory_PartialRead_loop h len last_end [] = (None, h)"
| "WindowsMemory_PartialRead_loop h len last_end ((start, run_length) # rest) =
     (if last_end \<le> offset h \<and> offset h < start
      then (Some (zeros (min len (start - offset h))), h)
      else
        let end = start + run_length in
        if start \<le> offset h \<and> offset h < end
        then
          let to_read = min len (end - offset h);
              fd1 = SetFilePointer (win_fd h) (offset h);
              (data, fd2) = ReadFile fd1 to_read
          in (Some data, h\<lparr>win_fd := fd2\<rparr>)
        else WindowsMemory_PartialRead_loop h len end rest)"

definition WindowsMemory_PartialRead ::
  "WindowsMemory \<Rightarrow> int \<Rightarrow> string option \<times> WindowsMemory" where
  "WindowsMemory_PartialRead h len = WindowsMemory_PartialRead_loop h len 0 (runs h)"

text \<open>
  The \<^verbatim>\<open>while\<close> loop of \<^verbatim>\<open>Read\<close>. \<^verbatim>\<open>if not data: break\<close> leaves the loop for
  \<^verbatim>\<open>None\<close> and for the empty string.
\<close>

function WindowsMemory_Read_loop ::
  "WindowsMemory \<Rightarrow> int \<Rightarrow> string \<Rightarrow> string \<times> WindowsMemory" where
  "WindowsMemory_Read_loop h len result =
     (if len > 0 \<and> offset h < win_size h
      then
        (case WindowsMemory_PartialRead h len of
           (None, h') \<Rightarrow> (result, h')
         | (Some data, h') \<Rightarrow>
             if data = [] then (result, h')
             else WindowsMemory_Read_loop
                    (h'\<lparr>offset := offset h' + int (length data)\<rparr>)
                    (len - int (length data))
                    (result @ data))
      else (result, h))"
  by pat_completeness auto
termination
  by (relation "measure (\<lambda>(h, len, result). nat len)") auto

declare WindowsMemory_Read_loop.simps [simp del]

definition WindowsMemory_Read :: "WindowsMemory \<Rightarrow> int \<Rightarrow> string \<times> WindowsMemory" where
  "WindowsMemory_Read h len = WindowsMemory_Read_loop h len []"

subsection \<open>OSXMemory.size, OSXMemory._PartialRead and OSXMemory.Read\<close>

text \<open>
  The property \<^verbatim>\<open>size\<close>: \<^verbatim>\<open>start, length = self.mmap[-1]\<close> raises \<^verbatim>\<open>IndexError\<close> on
  an empty list.
\<close>

definition OSXMemory_size :: "OSXMemory \<Rightarrow> py_error + int" where
  "OSXMemory_size x =
     (case mmap x of
        [] \<Rightarrow> Inl IndexError
      | _ # _ \<Rightarrow> (case last (mmap x) of (start, len) \<Rightarrow> Inr (start + len)))"

fun OSXMemory_PartialRead_loop ::
  "OSXMemory \<Rightarrow> int \<Rightarrow> int \<Rightarrow> run list \<Rightarrow> string option \<times> OSXMemory" where
  "OSXMemory_PartialRead_loop x len last_end [] = (None, x)"
| "OSXMemory_PartialRead_loop x len last_end ((section_start, section_length) # rest) =
     (let section_end = section_start + section_length in
      if last_end \<le> offset x \<and> offset x < section_start
      then (Some (zeros (min len (section_start - offset x))), x)
      else
        if section_start \<le> offset x \<and> offset x < section_end
        then
          let to_read = min len (section_end - offset x);
              dev1 = SetFilePointer (mem_dev x) (offset x);
              (data, dev2) = ReadFile dev1 to_read
          in (Some data, x\<lparr>mem_dev := dev2\<rparr>)
        else OSXMemory_PartialRead_loop x len section_end rest)"

definition OSXMemory_PartialRead :: "OSXMemory \<Rightarrow> int \<Rightarrow> string option \<times> OSXMemory" where
  "OSXMemory_PartialRead x len = OSXMemory_PartialRead_loop x len 0 (mmap x)"

text \<open>
  The loop condition \<^verbatim>\<open>length > 0 and self.offset < self.size\<close> evaluates the property
  only when \<^verbatim>\<open>length > 0\<close>, and the exception of the property leaves \<^verbatim>\<open>Read\<close>.
\<close>

function OSXMemory_Read_loop ::
  "OSXMemory \<Rightarrow> int \<Rightarrow> string \<Rightarrow> py_error + (string \<times> OSXMemory)" where
  "OSXMemory_Read_loop x len result =
     (if len > 0
      then
        (case OSXMemory_size x of
           Inl e \<Rightarrow> Inl e
         | Inr sz \<Rightarrow>
             if offset x < sz
             then
               (case OSXMemory_PartialRead x len of
                  (None, x') \<Rightarrow> Inr (result, x')
                | (Some data, x') \<Rightarrow>
                    if data = [] then Inr (result, x')
                    else OSXMemory_Read_loop
                           (x'\<lparr>offset := offset x' + int (length data)\<rparr>)
                           (len - int (length data))
                           (result @ data))
             else Inr (result, x))
      else Inr (result, x))"
  by pat_completeness auto
termination
  by (relation "measure (\<lambda>(x, len, result). nat len)") auto

declare OSXMemory_Read_loop.simps [simp del]

definition OSXMemory_Read :: "OSXMemory \<Rightarrow> int \<Rightarrow> py_error + (string \<times> OSXMemory)" where
  "OSXMemory_Read x len = OSXMemory_Read_loop x len []"

subsection \<open>Region maps\<close>

text \<open>
  The end of the last run of a region map, and 0 for the empty map: the value
  \<^verbatim>\<open>WindowsMemory.__init__\<close> leaves in \<^verbatim>\<open>self.size\<close>.
\<close>

definition total_size :: "run list \<Rightarrow> int" where
  "total_size rs = (case rs of [] \<Rightarrow> 0 | _ # _ \<Rightarrow> fst (last rs) + snd (last rs))"

text \<open>
  \<open>ascending lo rs\<close>: the runs start at or after \<open>lo\<close>, have no negative length, and each
  ends at or before the start of the next. \<open>ascending 0\<close> is the invariant of a region map.
\<close>

fun ascending :: "int \<Rightarrow> run list \<Rightarrow> bool" where
  "ascending lo [] = True"
| "ascending lo ((start, len) # rest) = (lo \<le> start \<and> 0 \<le> len \<and> ascending (start + len) rest)"

text \<open>Whether an offset is covered by a run of the list.\<close>

fun in_run :: "int \<Rightarrow> run \<Rightarrow> bool" where
  "in_run p (start, len) = (start \<le> p \<and> p < start + len)"

definition covered :: "run list \<Rightarrow> int \<Rightarrow> bool" where
  "covered rs p = list_ex (in_run p) rs"

subsection \<open>What one pass over the runs finds, and what a read returns\<close>

text \<open>
  The two loops above are described, for the proofs, by two pure functions that the
  lemmas below show equal to them: \<open>locate\<close> says where the scan of the runs stops (at
  the gap before a run, inside a run, or nowhere), and \<open>read_bytes\<close> is the byte string
  the \<^verbatim>\<open>while\<close> loop accumulates.
\<close>

datatype segment = Nowhere | Gap int | Inside int

fun locate :: "int \<Rightarrow> int \<Rightarrow> run list \<Rightarrow> segment" where
  "locate p last_end [] = Nowhere"
| "locate p last_end ((start, len) # rest) =
     (if last_end \<le> p \<and> p < start then Gap start
      else if start \<le> p \<and> p < start + len then Inside (start + len)
      else locate p (start + len) rest)"

definition partial_bytes :: "run list \<Rightarrow> (int \<Rightarrow> int \<Rightarrow> string) \<Rightarrow> int \<Rightarrow> int \<Rightarrow> string option" where
  "partial_bytes rs ans p len =
     (case locate p 0 rs of
        Nowhere \<Rightarrow> None
      | Gap start \<Rightarrow> Some (zeros (min len (start - p)))
      | Inside e \<Rightarrow> Some (ans p (min len (e - p))))"

function read_bytes ::
  "run list \<Rightarrow> int \<Rightarrow> (int \<Rightarrow> int \<Rightarrow> string) \<Rightarrow> int \<Rightarrow> int \<Rightarrow> string" where
  "read_bytes rs sz ans p len =
     (if len > 0 \<and> p < sz
      then
        (case partial_bytes rs ans p len of
           None \<Rightarrow> []
         | Some data \<Rightarrow>
             if data = [] then []
             else data @ read_bytes rs sz ans (p + int (length data)) (len - int (length data)))
      else [])"
  by pat_completeness auto
termination
  by (relation "measure (\<lambda>(rs, sz, ans, p, len). nat len)") auto

declare read_bytes.simps [simp del]

text \<open>The value of \<open>last_end\<close> when the scan has passed every run.\<close>

fun scan_end :: "int \<Rightarrow> run list \<Rightarrow> int" where
  "scan_end last_end [] = last_end"
| "scan_end last_end ((start, len) # rest) = scan_end (start + len) rest"

text \<open>
  The assumption on the device that the length claims make: a read that lies inside a
  run returns every byte asked for.
\<close>

definition device_full :: "run list \<Rightarrow> (int \<Rightarrow> int \<Rightarrow> string) \<Rightarrow> bool" where
  "device_full rs ans =
     (\<forall>(start, len) \<in> set rs. \<forall>p n.
        start \<le> p \<and> 0 < n \<and> p + n \<le> start + len \<longrightarrow> length (ans p n) = nat n)"

text \<open>Reading a list of chunk sizes one after the other, concatenating what is returned.\<close>

fun WindowsMemory_Read_chunks :: "WindowsMemory \<Rightarrow> int list \<Rightarrow> string \<times> WindowsMemory" where
  "WindowsMemory_Read_chunks h [] = ([], h)"
| "WindowsMemory_Read_chunks h (c # cs) =
     (case WindowsMemory_Read h c of
        (data, h') \<Rightarrow>
          (case WindowsMemory_Read_chunks h' cs of (later, h'') \<Rightarrow> (data @ later, h'')))"

fun OSXMemory_Read_chunks :: "OSXMemory \<Rightarrow> int list \<Rightarrow> py_error + (string \<times> OSXMemory)" where
  "OSXMemory_Read_chunks x [] = Inr ([], x)"
| "OSXMemory_Read_chunks x (c # cs) =
     (case OSXMemory_Read x c of
        Inl e \<Rightarrow> Inl e
      | Inr (data, x') \<Rightarrow>
          (case OSXMemory_Read_chunks x' cs of
             Inl e \<Rightarrow> Inl e
           | Inr (later, x'') \<Rightarrow> Inr (data @ later, x'')))"

subsection \<open>struct.unpack_from\<close>

text \<open>
  Both drivers run on little-endian machines and the formats are in native mode:
  \<^verbatim>\<open>Q\<close> is an unsigned 8-byte integer, \<^verbatim>\<open>I\<close> an unsigned 4-byte integer and, on
  Windows, \<^verbatim>\<open>l\<close> a signed 4-byte integer. \<open>le_uint\<close> reads a little-endian unsigned
  integer, \<open>field\<close> the \<open>n\<close> bytes at position \<open>a\<close> of a struct.
\<close>

definition le_uint :: "string \<Rightarrow> int" where
  "le_uint bs = foldr (\<lambda>c acc. int (of_char c) + 256 * acc) bs 0"

definition field :: "string \<Rightarrow> nat \<Rightarrow> nat \<Rightarrow> int" where
  "field bs a n = le_uint (take n (drop a bs))"

definition to_signed32 :: "int \<Rightarrow> int" where
  "to_signed32 v = (if v < 2147483648 then v else v - 4294967296)"

text \<open>
  \<^verbatim>\<open>struct.unpack_from(fmt, buffer, offset)\<close> for a format of \<open>n\<close> bytes: the bytes of
  the struct, or \<^verbatim>\<open>struct.error\<close> when the buffer does not hold \<open>n\<close> bytes from the
  offset (a negative offset counts from the end).
\<close>

definition unpack_from :: "nat \<Rightarrow> string \<Rightarrow> int \<Rightarrow> py_error + string" where
  "unpack_from n buffer off =
     (let off' = (if off < 0 then off + int (length buffer) else off)
      in if off' < 0 \<or> int (length buffer) - off' < int n then Inl StructError
         else Inr (take n (drop (nat off') buffer)))"

text \<open>\<^verbatim>\<open>struct.unpack_from("QQl", data)\<close>; \<^verbatim>\<open>struct.calcsize("QQl")\<close> is 20.\<close>

definition unpack_QQl :: "string \<Rightarrow> py_error + (int \<times> int \<times> int)" where
  "unpack_QQl data =
     (case unpack_from 20 data 0 of
        Inl e \<Rightarrow> Inl e
      | Inr bs \<Rightarrow> Inr (field bs 0 8, field bs 8 8, to_signed32 (field bs 16 4)))"

text \<open>\<^verbatim>\<open>struct.unpack_from("QQ", data, off)\<close>.\<close>

definition unpack_QQ :: "string \<Rightarrow> int \<Rightarrow> py_error + (int \<times> int)" where
  "unpack_QQ data off =
     (case unpack_from 16 data off of
        Inl e \<Rightarrow> Inl e
      | Inr bs \<Rightarrow> Inr (field bs 0 8, field bs 8 8))"

text \<open>\<^verbatim>\<open>struct.unpack_from("IIQQQQ", mmap, off)\<close>:
  (Type, Pad, PhysicalStart, VirtualStart, NumberOfPages, Attribute).\<close>

definition unpack_IIQQQQ :: "string \<Rightarrow> int \<Rightarrow> py_error + (int \<times> int \<times> int \<times> int \<times> int \<times> int)" where
  "unpack_IIQQQQ buffer off =
     (case unpack_from 40 buffer off of
        Inl e \<Rightarrow> Inl e
      | Inr bs \<Rightarrow>
          Inr (field bs 0 4, field bs 4 4, field bs 8 8, field bs 16 8, field bs 24 8,
               field bs 32 8))"

subsection \<open>WindowsMemory.__init__: the valid memory runs\<close>

text \<open>
  The loop \<^verbatim>\<open>for x in range(number_of_runs)\<close> over the buffer returned by the driver, with
  \<^verbatim>\<open>self.runs\<close> and \<^verbatim>\<open>self.size\<close> as the accumulator; \<^verbatim>\<open>break\<close> returns it.
\<close>

fun WindowsMemory_runs_loop ::
  "string \<Rightarrow> nat list \<Rightarrow> run list \<times> int \<Rightarrow> py_error + (run list \<times> int)" where
  "WindowsMemory_runs_loop data [] (rs, sz) = Inr (rs, sz)"
| "WindowsMemory_runs_loop data (x # xs) (rs, sz) =
     (case unpack_QQ data (int x * 16 + 20) of
        Inl e \<Rightarrow> Inl e
      | Inr (start, len) \<Rightarrow>
          if len = 0 then Inr (rs, sz)
          else WindowsMemory_runs_loop data xs (rs @ [(start, len)], start + len))"

text \<open>Lines 132 to 143: the header, then the runs. The result is \<open>(cr3, runs, size)\<close>.\<close>

definition WindowsMemory_decode :: "string \<Rightarrow> py_error + (int \<times> run list \<times> int)" where
  "WindowsMemory_decode data =
     (case unpack_QQl data of
        Inl e \<Rightarrow> Inl e
      | Inr (cr3_value, _, number_of_runs) \<Rightarrow>
          (case WindowsMemory_runs_loop data [0..<nat number_of_runs] ([], 0) of
             Inl e \<Rightarrow> Inl e
           | Inr (rs, sz) \<Rightarrow> Inr (cr3_value, rs, sz)))"

text \<open>
  The entries of the buffer as the claims speak of them: the declared count, the
  \<open>x\<close>-th \<open>(start, length)\<close> pair, and whether every entry the loop reaches lies inside
  the buffer.
\<close>

definition declared_runs :: "string \<Rightarrow> int" where
  "declared_runs data = to_signed32 (field data 16 4)"

definition run_entry :: "string \<Rightarrow> nat \<Rightarrow> run" where
  "run_entry data x = (field data (20 + 16 * x) 8, field data (28 + 16 * x) 8)"

fun entries_present :: "string \<Rightarrow> nat list \<Rightarrow> bool" where
  "entries_present data [] = True"
| "entries_present data (x # xs) =
     (36 + 16 * x \<le> length data \<and> (snd (run_entry data x) \<noteq> 0 \<longrightarrow> entries_present data xs))"

subsection \<open>OSXMemory._ParseBinaryMemoryMap\<close>

definition page_size :: int where
  "page_size = 4096"

definition valid_memory_types :: "int list" where
  "valid_memory_types = [1, 2, 3, 4, 5, 6, 7, 9, 10, 13, 14]"

fun OSXMemory_ParseBinaryMemoryMap_loop ::
  "string \<Rightarrow> int \<Rightarrow> nat list \<Rightarrow> run list \<Rightarrow> py_error + run list" where
  "OSXMemory_ParseBinaryMemoryMap_loop buffer desc_size [] result = Inr result"
| "OSXMemory_ParseBinaryMemoryMap_loop buffer desc_size (x # xs) result =
     (case unpack_IIQQQQ buffer (int x * desc_size) of
        Inl e \<Rightarrow> Inl e
      | Inr (seg_type, _, start, _, pages, _) \<Rightarrow>
          if seg_type \<in> set valid_memory_types
          then OSXMemory_ParseBinaryMemoryMap_loop buffer desc_size xs
                 (result @ [(start, pages * page_size)])
          else OSXMemory_ParseBinaryMemoryMap_loop buffer desc_size xs result)"

text \<open>\<^verbatim>\<open>size / desc_size\<close> is Python 2's integer division, which raises for a zero
  divisor.\<close>

definition OSXMemory_ParseBinaryMemoryMap :: "string \<Rightarrow> int \<Rightarrow> int \<Rightarrow> py_error + run list" where
  "OSXMemory_ParseBinaryMemoryMap buffer sz desc_size =
     (if desc_size = 0 then Inl ZeroDivisionError
      else OSXMemory_ParseBinaryMemoryMap_loop buffer desc_size
             [0..<nat (sz div desc_size)] [])"

text \<open>The fields of the \<open>x\<close>-th descriptor of a buffer.\<close>

definition desc_type :: "string \<Rightarrow> int \<Rightarrow> nat \<Rightarrow> int" where
  "desc_type buffer desc_size x = field buffer (nat (int x * desc_size)) 4"

definition desc_start :: "string \<Rightarrow> int \<Rightarrow> nat \<Rightarrow> int" where
  "desc_start buffer desc_size x = field buffer (nat (int x * desc_size) + 8) 8"

definition desc_pages :: "string \<Rightarrow> int \<Rightarrow> nat \<Rightarrow> int" where
  "desc_pages buffer desc_size x = field buffer (nat (int x * desc_size) + 24) 8"

text \<open>
  The allow-list as the specification words it: loader code and data (1, 2), boot-service
  code and data (3, 4), runtime-service code and data (5, 6), conventional memory (7),
  ACPI reclaimable (9), ACPI NVS (10) and processor-abstraction (Pal) code (13), numbered
  as the comments of \<^verbatim>\<open>valid_memory_types\<close> number them.
\<close>

definition spec_usable_types :: "int list" where
  "spec_usable_types = [1, 2, 3, 4, 5, 6, 7, 9, 10, 13]"

subsection \<open>Opening a handler\<close>

text \<open>
  The handlers derive from \<^verbatim>\<open>vfs.VFSHandler\<close>, which is not among the sources.
  \<^verbatim>\<open>MemoryVFS.__init__\<close> does not call the constructor of that class: it drops its
  \<^verbatim>\<open>base_fd\<close> argument (\<^verbatim>\<open>_ = base_fd\<close>) and stores the pathspec. The attributes
  \<^verbatim>\<open>self.base_fd\<close> and \<^verbatim>\<open>self.offset\<close> a handler reads are therefore the ones the class
  \<^verbatim>\<open>VFSHandler\<close> provides: they are parameters of the model. \<open>vfs_base_fd = None\<close>
  stands for a class without such an attribute, where reading it raises
  \<^verbatim>\<open>AttributeError\<close>.
\<close>

datatype base_handle = PyNone | Handler string

record VFSHandler =
  vfs_base_fd :: "base_handle option"
  vfs_offset :: int

definition MemoryVFS_init :: "VFSHandler \<Rightarrow> base_handle \<Rightarrow> string \<Rightarrow> MemoryVFS" where
  "MemoryVFS_init cls base_fd pathspec_arg =
     (let _ = base_fd in \<lparr>pathspec = pathspec_arg, offset = vfs_offset cls\<rparr>)"

text \<open>\<^verbatim>\<open>if self.base_fd is not None: raise IOError("Memory driver must be a top level.")\<close>\<close>

definition top_level_error :: py_error where
  "top_level_error = IOError ''Memory driver must be a top level.''"

definition check_top_level :: "VFSHandler \<Rightarrow> py_error + unit" where
  "check_top_level cls =
     (case vfs_base_fd cls of
        None \<Rightarrow> Inl AttributeError
      | Some v \<Rightarrow> if v \<noteq> PyNone then Inl top_level_error else Inr ())"

text \<open>
  A Python 2 file object over the bytes of a file, on a 64-bit Linux. \<^verbatim>\<open>seek\<close> converts
  its offset to a signed 64-bit integer and \<^verbatim>\<open>whence\<close> to a signed 32-bit integer
  (\<^verbatim>\<open>OverflowError\<close> when they do not fit), and raises \<^verbatim>\<open>IOError\<close> for an unknown
  \<^verbatim>\<open>whence\<close>, for a position before the start of the file and for a position the file
  system or device does not accept: \<open>file_limit\<close> is the largest offset it accepts. The
  length of the file plays no part, so a position past the end is accepted. \<^verbatim>\<open>read\<close>
  converts its size to a signed 64-bit integer, allocates a string of that size
  (\<^verbatim>\<open>MemoryError\<close> beyond \<open>alloc_limit\<close>, the largest string the interpreter can
  allocate) and, with a negative size, reads to the end of the file.
\<close>

record pyfile =
  file_data :: string
  file_pos :: int
  file_limit :: int
  alloc_limit :: int

definition fits_int64 :: "int \<Rightarrow> bool" where
  "fits_int64 v = (- 9223372036854775808 \<le> v \<and> v < 9223372036854775808)"

definition fits_int32 :: "int \<Rightarrow> bool" where
  "fits_int32 v = (- 2147483648 \<le> v \<and> v < 2147483648)"

definition file_seek :: "pyfile \<Rightarrow> int \<Rightarrow> int \<Rightarrow> py_error + pyfile" where
  "file_seek f off whence =
     (if \<not> fits_int32 whence \<or> \<not> fits_int64 off then Inl OverflowError
      else if whence \<noteq> 0 \<and> whence \<noteq> 1 \<and> whence \<noteq> 2 then Inl (IOError ''Invalid argument'')
      else
        let target = (if whence = 0 then off
                      else if whence = 1 then file_pos f + off
                      else int (length (file_data f)) + off)
        in if target < 0 \<or> \<not> fits_int64 target \<or> file_limit f < target
           then Inl (IOError ''Invalid argument'')
           else Inr (f\<lparr>file_pos := target\<rparr>))"

definition file_tell :: "pyfile \<Rightarrow> int" where
  "file_tell f = file_pos f"

definition file_read :: "pyfile \<Rightarrow> int \<Rightarrow> py_error + (string \<times> pyfile)" where
  "file_read f n =
     (if \<not> fits_int64 n then Inl OverflowError
      else if alloc_limit f < n then Inl MemoryError
      else
        let rest = drop (nat (file_pos f)) (file_data f);
            data = (if n < 0 then rest else take (nat n) rest)
        in Inr (data, f\<lparr>file_pos := file_pos f + int (length data)\<rparr>))"

text \<open>\<^verbatim>\<open>LinuxMemory\<close>: \<open>linux_fd\<close> is its \<^verbatim>\<open>fd\<close>, \<open>linux_size\<close> its \<^verbatim>\<open>size\<close>.\<close>

record LinuxMemory = MemoryVFS +
  linux_fd :: pyfile
  linux_size :: int

text \<open>
  \<^verbatim>\<open>LinuxMemory.__init__\<close>. \<open>open_file\<close> is \<^verbatim>\<open>open(path, "rb")\<close>: the file object at
  position 0, or the error of the operating system.
\<close>

definition LinuxMemory_init ::
  "VFSHandler \<Rightarrow> base_handle \<Rightarrow> string \<Rightarrow> (string \<Rightarrow> py_error + pyfile) \<Rightarrow> py_error + LinuxMemory" where
  "LinuxMemory_init cls base_fd pathspec_arg open_file =
     (let self = MemoryVFS_init cls base_fd pathspec_arg in
      case check_top_level cls of
        Inl e \<Rightarrow> Inl e
      | Inr _ \<Rightarrow>
          (case open_file pathspec_arg of
             Inl e \<Rightarrow> Inl e
           | Inr fd0 \<Rightarrow>
               (case file_seek fd0 0 2 of
                  Inl e \<Rightarrow> Inl e
                | Inr fd1 \<Rightarrow>
                    (case file_seek fd1 0 0 of
                       Inl e \<Rightarrow> Inl e
                     | Inr fd2 \<Rightarrow>
                         Inr (MemoryVFS.extend self
                                \<lparr>linux_fd = fd2, linux_size = file_tell fd1\<rparr>)))))"

definition LinuxMemory_Read :: "LinuxMemory \<Rightarrow> int \<Rightarrow> py_error + (string \<times> LinuxMemory)" where
  "LinuxMemory_Read h len =
     (case file_read (linux_fd h) len of
        Inl e \<Rightarrow> Inl e
      | Inr (data, f) \<Rightarrow> Inr (data, h\<lparr>linux_fd := f\<rparr>))"

definition LinuxMemory_Seek :: "LinuxMemory \<Rightarrow> int \<Rightarrow> int \<Rightarrow> py_error + LinuxMemory" where
  "LinuxMemory_Seek h off whence =
     (case file_seek (linux_fd h) off whence of
        Inl e \<Rightarrow> Inl e
      | Inr f \<Rightarrow> Inr (h\<lparr>linux_fd := f\<rparr>))"

definition LinuxMemory_Tell :: "LinuxMemory \<Rightarrow> int" where
  "LinuxMemory_Tell h = file_tell (linux_fd h)"

text \<open>
  Modelled from the spec: the methods \<^verbatim>\<open>Seek\<close> and \<^verbatim>\<open>Tell\<close> of \<^verbatim>\<open>vfs.VFSHandler\<close>, which
  \<^verbatim>\<open>WindowsMemory\<close> and \<^verbatim>\<open>OSXMemory\<close> inherit and which are not among the sources. The
  specification says of them: \<^verbatim>\<open>seek(offset, whence)\<close> sets the cursor to an absolute,
  relative, or end-relative position, with no validation against the total size at seek
  time; \<^verbatim>\<open>tell()\<close> returns the cursor. \<open>total_sz\<close> is the total size an end-relative
  position counts from.
\<close>

datatype seek_mode = Absolute | Relative | End_relative

definition VFSHandler_Seek ::
  "'a MemoryVFS_scheme \<Rightarrow> int \<Rightarrow> int \<Rightarrow> seek_mode \<Rightarrow> 'a MemoryVFS_scheme" where
  "VFSHandler_Seek h total_sz off mode =
     (case mode of
        Absolute \<Rightarrow> h\<lparr>offset := off\<rparr>
      | Relative \<Rightarrow> h\<lparr>offset := offset h + off\<rparr>
      | End_relative \<Rightarrow> h\<lparr>offset := total_sz + off\<rparr>)"

definition VFSHandler_Tell :: "'a MemoryVFS_scheme \<Rightarrow> int" where
  "VFSHandler_Tell h = offset h"

text \<open>
  \<^verbatim>\<open>WindowsMemory.__init__\<close>. \<open>create_file\<close> is \<^verbatim>\<open>win32file.CreateFile\<close> on the path and
  \<open>device_io_control\<close> the \<^verbatim>\<open>DeviceIoControl\<close> call that returns the buffer of runs.
\<close>

definition WindowsMemory_init ::
  "VFSHandler \<Rightarrow> base_handle \<Rightarrow> string \<Rightarrow> (string \<Rightarrow> py_error + device)
     \<Rightarrow> (device \<Rightarrow> py_error + string) \<Rightarrow> py_error + WindowsMemory" where
  "WindowsMemory_init cls base_fd pathspec_arg create_file device_io_control =
     (let self = MemoryVFS_init cls base_fd pathspec_arg in
      case check_top_level cls of
        Inl e \<Rightarrow> Inl e
      | Inr _ \<Rightarrow>
          (case create_file pathspec_arg of
             Inl e \<Rightarrow> Inl e
           | Inr fd0 \<Rightarrow>
               (case device_io_control fd0 of
                  Inl e \<Rightarrow> Inl e
                | Inr data \<Rightarrow>
                    (case WindowsMemory_decode data of
                       Inl e \<Rightarrow> Inl e
                     | Inr (cr3_value, rs, sz) \<Rightarrow>
                         Inr (MemoryVFS.extend self
                                \<lparr>cr3 = cr3_value, runs = rs, win_size = sz, win_fd = fd0\<rparr>)))))"

text \<open>
  \<^verbatim>\<open>OSXMemory.__init__\<close> with \<^verbatim>\<open>GetMemoryMap\<close>. \<open>open_device\<close> is \<^verbatim>\<open>open(path, "rb")\<close>,
  \<open>dimensions\<close> the two ioctls of \<^verbatim>\<open>_GetBinaryMemoryMapDimensions\<close> and \<open>binary_map\<close> the
  ioctl of \<^verbatim>\<open>_GetBinaryMemoryMap\<close>, which returns a buffer of the size it is given.
\<close>

definition OSXMemory_GetMemoryMap ::
  "device \<Rightarrow> (device \<Rightarrow> py_error + (int \<times> int)) \<Rightarrow> (device \<Rightarrow> int \<Rightarrow> py_error + string)
     \<Rightarrow> py_error + run list" where
  "OSXMemory_GetMemoryMap dev dimensions binary_map =
     (case dimensions dev of
        Inl e \<Rightarrow> Inl e
      | Inr (sz, desc_size) \<Rightarrow>
          (case binary_map dev sz of
             Inl e \<Rightarrow> Inl e
           | Inr buffer \<Rightarrow> OSXMemory_ParseBinaryMemoryMap buffer sz desc_size))"

definition OSXMemory_init ::
  "VFSHandler \<Rightarrow> base_handle \<Rightarrow> string \<Rightarrow> (string \<Rightarrow> py_error + device)
     \<Rightarrow> (device \<Rightarrow> py_error + (int \<times> int)) \<Rightarrow> (device \<Rightarrow> int \<Rightarrow> py_error + string)
     \<Rightarrow> py_error + OSXMemory" where
  "OSXMemory_init cls base_fd pathspec_arg open_device dimensions binary_map =
     (let self = MemoryVFS_init cls base_fd pathspec_arg in
      case check_top_level cls of
        Inl e \<Rightarrow> Inl e
      | Inr _ \<Rightarrow>
          (case open_device pathspec_arg of
             Inl e \<Rightarrow> Inl e
           | Inr dev \<Rightarrow>
               (case OSXMemory_GetMemoryMap dev dimensions binary_map of
                  Inl e \<Rightarrow> Inl e
                | Inr m \<Rightarrow> Inr (MemoryVFS.extend self \<lparr>mmap = m, mem_dev = dev\<rparr>))))"

subsection \<open>Example handles\<close>

text \<open>
  The region map of the scenarios: runs \<open>[(0,100), (200,50)]\<close>, total size 250, over a
  device whose memory image holds 250 bytes \<open>M\<close>; the handles below have their cursor
  at \<open>p\<close>.
\<close>

definition image_device :: "string \<Rightarrow> device" where
  "image_device img = \<lparr>dev_answer = image_read img, dev_pos = 0, dev_calls = []\<rparr>"

definition example_runs :: "run list" where
  "example_runs = [(0, 100), (200, 50)]"

definition example_image :: string where
  "example_image = replicate 250 (CHR ''M'')"

definition win_example :: "int \<Rightarrow> WindowsMemory" where
  "win_example p =
     \<lparr>pathspec = ''pmem'', offset = p, cr3 = 0, runs = example_runs, win_size = 250,
      win_fd = image_device example_image\<rparr>"

definition osx_example :: "int \<Rightarrow> OSXMemory" where
  "osx_example p =
     \<lparr>pathspec = ''pmem'', offset = p, mmap = example_runs,
      mem_dev = image_device example_image\<rparr>"

text \<open>Handles over an empty region map.\<close>

definition win_empty :: "int \<Rightarrow> WindowsMemory" where
  "win_empty p =
     \<lparr>pathspec = ''pmem'', offset = p, cr3 = 0, runs = [], win_size = 0,
      win_fd = image_device example_image\<rparr>"

definition osx_empty :: "int \<Rightarrow> OSXMemory" where
  "osx_empty p =
     \<lparr>pathspec = ''pmem'', offset = p, mmap = [], mem_dev = image_device example_image\<rparr>"

text \<open>
  A buffer of the Windows driver: \<open>cr3 = 0x187000\<close>, a declared count of 3, and the entries
  \<open>(0, 100)\<close>, \<open>(200, 50)\<close> and \<open>(300, 0)\<close>.
\<close>

definition example_buffer :: string where
  "example_buffer = [
      CHR 0x00, CHR 0x70, CHR 0x18, CHR 0x00, CHR 0x00, CHR 0x00, CHR 0x00, CHR 0x00,
      CHR 0x00, CHR 0x00, CHR 0x00, CHR 0x00, CHR 0x00, CHR 0x00, CHR 0x00, CHR 0x00,
      CHR 0x03, CHR 0x00, CHR 0x00, CHR 0x00, CHR 0x00, CHR 0x00, CHR 0x00, CHR 0x00,
      CHR 0x00, CHR 0x00, CHR 0x00, CHR 0x00, CHR 0x64, CHR 0x00, CHR 0x00, CHR 0x00,
      CHR 0x00, CHR 0x00, CHR 0x00, CHR 0x00, CHR 0xC8, CHR 0x00, CHR 0x00, CHR 0x00,
      CHR 0x00, CHR 0x00, CHR 0x00, CHR 0x00, CHR 0x32, CHR 0x00, CHR 0x00, CHR 0x00,
      CHR 0x00, CHR 0x00, CHR 0x00, CHR 0x00, CHR 0x2C, CHR 0x01, CHR 0x00, CHR 0x00,
      CHR 0x00, CHR 0x00, CHR 0x00, CHR 0x00, CHR 0x00, CHR 0x00, CHR 0x00, CHR 0x00,
      CHR 0x00, CHR 0x00, CHR 0x00, CHR 0x00]"

text \<open>
  A memory map of the OSX driver with three descriptors of 40 bytes: type 7 at 0 with 16
  pages, type 0 at \<open>0x10000\<close> with 4 pages, and type 14 at \<open>0x20000\<close> with 2 pages.
\<close>

definition example_efi_map :: string where
  "example_efi_map = [
      CHR 0x07, CHR 0x00, CHR 0x00, CHR 0x00, CHR 0x00, CHR 0x00, CHR 0x00, CHR 0x00,
      CHR 0x00, CHR 0x00, CHR 0x00, CHR 0x00, CHR 0x00, CHR 0x00, CHR 0x00, CHR 0x00,
      CHR 0x00, CHR 0x00, CHR 0x00, CHR 0x00, CHR 0x00, CHR 0x00, CHR 0x00, CHR 0x00,
      CHR 0x10, CHR 0x00, CHR 0x00, CHR 0x00, CHR 0x00, CHR 0x00, CHR 0x00, CHR 0x00,
      CHR 0x00, CHR 0x00, CHR 0x00, CHR 0x00, CHR 0x00, CHR 0x00, CHR 0x00, CHR 0x00,
      CHR 0x00, CHR 0x00, CHR 0x00, CHR 0x00, CHR 0x00, CHR 0x00, CHR 0x00, CHR 0x00,
      CHR 0x00, CHR 0x00, CHR 0x01, CHR 0x00, CHR 0x00, CHR 0x00, CHR 0x00, CHR 0x00,
      CHR 0x00, CHR 0x00, CHR 0x00, CHR 0x00, CHR 0x00, CHR 0x00, CHR 0x00, CHR 0x00,
      CHR 0x04, CHR 0x00, CHR 0x00, CHR 0x00, CHR 0x00, CHR 0x00, CHR 0x00, CHR 0x00,
      CHR 0x00, CHR 0x00, CHR 0x00, CHR 0x00, CHR 0x00, CHR 0x00, CHR 0x00, CHR 0x00,
      CHR 0x0E, CHR 0x00, CHR 0x00, CHR 0x00, CHR 0x00, CHR 0x00, CHR 0x00, CHR 0x00,
      CHR 0x00, CHR 0x00, CHR 0x02, CHR 0x00, CHR 0x00, CHR 0x00, CHR 0x00, CHR 0x00,
      CHR 0x00, CHR 0x00, CHR 0x00, CHR 0x00, CHR 0x00, CHR 0x00, CHR 0x00, CHR 0x00,
      CHR 0x02, CHR 0x00, CHR 0x00, CHR 0x00, CHR 0x00, CHR 0x00, CHR 0x00, CHR 0x00,
      CHR 0x00, CHR 0x00, CHR 0x00, CHR 0x00, CHR 0x00, CHR 0x00, CHR 0x00, CHR 0x00]"

text \<open>The Linux handle of a file of 10 bytes, as \<^verbatim>\<open>LinuxMemory.__init__\<close> builds it.\<close>

definition linux_example :: LinuxMemory where
  "linux_example =
     \<lparr>pathspec = ''mem'', offset = 0,
      linux_fd = \<lparr>file_data = ''0123456789'', file_pos = 0,
                  file_limit = 9223372036854775807, alloc_limit = 1073741824\<rparr>,
      linux_size = 10\<rparr>"

section \<open>Lemmas about the scan of the runs and the read loops\<close>

subsection \<open>The device calls\<close>

lemma SetFilePointer_answer [simp]: "dev_answer (SetFilePointer d p) = dev_answer d"
  by (simp add: SetFilePointer_def)

lemma ReadFile_answer [simp]: "dev_answer (snd (ReadFile d n)) = dev_answer d"
  by (simp add: ReadFile_def Let_def)

lemma ReadFile_data [simp]:
  "fst (ReadFile (SetFilePointer d p) n) = dev_answer d p n"
  by (simp add: ReadFile_def SetFilePointer_def Let_def)

lemma ReadFile_calls [simp]:
  "dev_calls (snd (ReadFile (SetFilePointer d p) n)) = dev_calls d @ [Seek_call p, Read_call n]"
  by (simp add: ReadFile_def SetFilePointer_def Let_def)

lemma Win_PR_loop_locate:
  "WindowsMemory_PartialRead_loop h len le rs =
     (case locate (offset h) le rs of
        Nowhere \<Rightarrow> (None, h)
      | Gap s \<Rightarrow> (Some (zeros (min len (s - offset h))), h)
      | Inside e \<Rightarrow>
          (Some (dev_answer (win_fd h) (offset h) (min len (e - offset h))),
           h\<lparr>win_fd := snd (ReadFile (SetFilePointer (win_fd h) (offset h)) (min len (e - offset h)))\<rparr>))"
  by (induction rs arbitrary: le) (auto simp: Let_def case_prod_beta)

lemma OSX_PR_loop_locate:
  "OSXMemory_PartialRead_loop h len le rs =
     (case locate (offset h) le rs of
        Nowhere \<Rightarrow> (None, h)
      | Gap s \<Rightarrow> (Some (zeros (min len (s - offset h))), h)
      | Inside e \<Rightarrow>
          (Some (dev_answer (mem_dev h) (offset h) (min len (e - offset h))),
           h\<lparr>mem_dev := snd (ReadFile (SetFilePointer (mem_dev h) (offset h)) (min len (e - offset h)))\<rparr>))"
  by (induction rs arbitrary: le) (auto simp: Let_def case_prod_beta)

lemma Win_PR_bytes:
  "fst (WindowsMemory_PartialRead h len) = partial_bytes (runs h) (dev_answer (win_fd h)) (offset h) len"
  by (simp add: WindowsMemory_PartialRead_def Win_PR_loop_locate partial_bytes_def split: segment.splits)

lemma Win_PR_frame:
  "offset (snd (WindowsMemory_PartialRead h len)) = offset h"
  "runs (snd (WindowsMemory_PartialRead h len)) = runs h"
  "win_size (snd (WindowsMemory_PartialRead h len)) = win_size h"
  "dev_answer (win_fd (snd (WindowsMemory_PartialRead h len))) = dev_answer (win_fd h)"
  by (simp_all add: WindowsMemory_PartialRead_def Win_PR_loop_locate split: segment.splits)


lemma Win_Read_loop_stop:
  "\<not> (len > 0 \<and> offset h < win_size h) \<Longrightarrow> WindowsMemory_Read_loop h len res = (res, h)"
  by (subst WindowsMemory_Read_loop.simps) auto

lemma read_bytes_stop:
  "\<not> (len > 0 \<and> p < sz) \<Longrightarrow> read_bytes rs sz ans p len = []"
  by (subst read_bytes.simps) auto

lemma Win_Read_loop_step:
  "len > 0 \<Longrightarrow> offset h < win_size h \<Longrightarrow>
   WindowsMemory_Read_loop h len res =
     (case WindowsMemory_PartialRead h len of
        (None, h') \<Rightarrow> (res, h')
      | (Some data, h') \<Rightarrow>
          if data = [] then (res, h')
          else WindowsMemory_Read_loop (h'\<lparr>offset := offset h' + int (length data)\<rparr>)
                 (len - int (length data)) (res @ data))"
  by (subst WindowsMemory_Read_loop.simps) simp

lemma read_bytes_step:
  "len > 0 \<Longrightarrow> p < sz \<Longrightarrow>
   read_bytes rs sz ans p len =
     (case partial_bytes rs ans p len of
        None \<Rightarrow> []
      | Some data \<Rightarrow>
          if data = [] then []
          else data @ read_bytes rs sz ans (p + int (length data)) (len - int (length data)))"
  by (subst read_bytes.simps) simp

lemma Win_Read_loop_bytes:
  "fst (WindowsMemory_Read_loop h len res) =
     res @ read_bytes (runs h) (win_size h) (dev_answer (win_fd h)) (offset h) len
   \<and> offset (snd (WindowsMemory_Read_loop h len res)) =
     offset h + int (length (read_bytes (runs h) (win_size h) (dev_answer (win_fd h)) (offset h) len))
   \<and> runs (snd (WindowsMemory_Read_loop h len res)) = runs h
   \<and> win_size (snd (WindowsMemory_Read_loop h len res)) = win_size h
   \<and> dev_answer (win_fd (snd (WindowsMemory_Read_loop h len res))) = dev_answer (win_fd h)"
proof (induction h len res rule: WindowsMemory_Read_loop.induct)
  case (1 h len res)
  show ?case
  proof (cases "len > 0 \<and> offset h < win_size h")
    case False
    then show ?thesis
      by (simp add: Win_Read_loop_stop read_bytes_stop)
  next
    case True
    obtain r h' where pr: "WindowsMemory_PartialRead h len = (r, h')"
      by (cases "WindowsMemory_PartialRead h len")
    have r: "r = partial_bytes (runs h) (dev_answer (win_fd h)) (offset h) len"
      using Win_PR_bytes[of h len] pr by simp
    have fr: "offset h' = offset h" "runs h' = runs h" "win_size h' = win_size h"
      "dev_answer (win_fd h') = dev_answer (win_fd h)"
      using Win_PR_frame[of h len] pr by simp_all
    show ?thesis
    proof (cases r)
      case None
      then show ?thesis using True pr r[symmetric] fr
        by (simp add: Win_Read_loop_step read_bytes_step)
    next
      case (Some data)
      show ?thesis
      proof (cases "data = []")
        case True
        then show ?thesis using \<open>len > 0 \<and> offset h < win_size h\<close> pr r[symmetric] fr Some
          by (simp add: Win_Read_loop_step read_bytes_step)
      next
        case False
        note IH = "1.IH"[OF True pr[symmetric] Some False]
        have unf: "WindowsMemory_Read_loop h len res =
           WindowsMemory_Read_loop (h'\<lparr>offset := offset h' + int (length data)\<rparr>)
             (len - int (length data)) (res @ data)"
          using True pr Some False by (simp add: Win_Read_loop_step)
        have unf2: "read_bytes (runs h) (win_size h) (dev_answer (win_fd h)) (offset h) len =
           data @ read_bytes (runs h) (win_size h) (dev_answer (win_fd h))
              (offset h + int (length data)) (len - int (length data))"
          using True r[symmetric] Some False by (simp add: read_bytes_step)
        show ?thesis using IH fr unfolding unf unf2 by simp
      qed
    qed
  qed
qed

subsection \<open>Where the scan stops\<close>

lemma total_size_scan_end: "total_size rs = scan_end 0 rs"
proof -
  have "rs \<noteq> [] \<Longrightarrow> scan_end le rs = fst (last rs) + snd (last rs)" for le
    by (induction rs arbitrary: le) (auto)
  then show ?thesis by (cases rs) (simp_all add: total_size_def)
qed

lemma ascending_scan_end: "ascending le rs \<Longrightarrow> le \<le> scan_end le rs"
  by (induction le rs rule: ascending.induct) auto

lemma locate_Gap_less: "locate p le rs = Gap s \<Longrightarrow> p < s"
  by (induction p le rs rule: locate.induct) (auto split: if_splits)

lemma locate_Inside_less: "locate p le rs = Inside e \<Longrightarrow> p < e"
  by (induction p le rs rule: locate.induct) (auto split: if_splits)

lemma locate_Inside_run:
  "locate p le rs = Inside e \<Longrightarrow> \<exists>(s, l) \<in> set rs. s \<le> p \<and> p < s + l \<and> e = s + l"
  by (induction p le rs rule: locate.induct) (auto split: if_splits)

lemma locate_Gap_run:
  "locate p le rs = Gap s \<Longrightarrow> \<exists>l. (s, l) \<in> set rs"
  by (induction p le rs rule: locate.induct) (auto split: if_splits)

lemma locate_Nowhere_end:
  "le \<le> p \<Longrightarrow> locate p le rs = Nowhere \<Longrightarrow> scan_end le rs \<le> p"
  by (induction p le rs rule: locate.induct) (auto split: if_splits)

lemma locate_Gap_le_end:
  "ascending le rs \<Longrightarrow> locate p le rs = Gap s \<Longrightarrow> s \<le> scan_end le rs"
proof (induction p le rs rule: locate.induct)
  case (2 p le start len rest)
  then show ?case
    using ascending_scan_end[of "start + len" rest] by (auto split: if_splits)
qed simp

lemma locate_Inside_le_end:
  "ascending le rs \<Longrightarrow> locate p le rs = Inside e \<Longrightarrow> e \<le> scan_end le rs"
proof (induction p le rs rule: locate.induct)
  case (2 p le start len rest)
  then show ?case
    using ascending_scan_end[of "start + len" rest] by (auto split: if_splits)
qed simp

lemma locate_stable_Gap:
  "le \<le> p \<Longrightarrow> p \<le> p' \<Longrightarrow> locate p le rs = Gap s \<Longrightarrow> p' < s \<Longrightarrow> locate p' le rs = Gap s"
  by (induction p le rs rule: locate.induct) (auto split: if_splits)

lemma locate_stable_Inside:
  "le \<le> p \<Longrightarrow> p \<le> p' \<Longrightarrow> locate p le rs = Inside e \<Longrightarrow> p' < e \<Longrightarrow> locate p' le rs = Inside e"
  by (induction p le rs rule: locate.induct) (auto split: if_splits)

lemma locate_not_covered:
  "\<not> covered rs p \<Longrightarrow> locate p le rs \<noteq> Inside e"
  using locate_Inside_run[of p le rs e] by (fastforce simp: covered_def list_ex_iff)

lemma ascending_starts:
  "ascending le rs \<Longrightarrow> (s, l) \<in> set rs \<Longrightarrow> le \<le> s \<and> 0 \<le> l"
proof (induction le rs rule: ascending.induct)
  case (2 lo start len rest)
  then show ?case by (auto; fastforce)
qed simp

lemma locate_in_run:
  "ascending le rs \<Longrightarrow> (s, l) \<in> set rs \<Longrightarrow> s \<le> p \<Longrightarrow> p < s + l \<Longrightarrow> locate p le rs = Inside (s + l)"
proof (induction le rs rule: ascending.induct)
  case (2 lo start len rest)
  show ?case
  proof (cases "(s, l) = (start, len)")
    case True
    then show ?thesis using 2 by auto
  next
    case False
    then have mem: "(s, l) \<in> set rest" using 2 by auto
    have "start + len \<le> s" using ascending_starts[of "start + len" rest s l] 2 mem by auto
    then show ?thesis using 2 mem by auto
  qed
qed simp

subsection \<open>The length of a read\<close>

lemma zeros_length [simp]: "length (zeros n) = nat n"
  by (simp add: zeros_def)

lemma partial_bytes_full:
  assumes asc: "ascending 0 rs" and p0: "0 \<le> p" and lt: "p < total_size rs"
    and full: "device_full rs ans" and len: "0 < len"
  shows "\<exists>data E. partial_bytes rs ans p len = Some data \<and> p < E \<and> E \<le> total_size rs
           \<and> length data = nat (min len (E - p))"
proof (cases "locate p 0 rs")
  case Nowhere
  then show ?thesis
    using locate_Nowhere_end[of 0 p rs] p0 lt by (simp add: total_size_scan_end)
next
  case (Gap s)
  then show ?thesis
    using locate_Gap_less[of p 0 rs s] locate_Gap_le_end[OF asc, of p s]
    by (auto simp: partial_bytes_def total_size_scan_end)
next
  case (Inside e)
  obtain s l where r: "(s, l) \<in> set rs" "s \<le> p" "p < s + l" "e = s + l"
    using locate_Inside_run[OF Inside] by auto
  have "length (ans p (min len (e - p))) = nat (min len (e - p))"
    using full r len unfolding device_full_def by (auto simp: min_def)
  then show ?thesis
    using Inside locate_Inside_less[OF Inside] locate_Inside_le_end[OF asc Inside]
    by (auto simp: partial_bytes_def total_size_scan_end)
qed

lemma read_bytes_length:
  "ascending 0 rs \<Longrightarrow> sz = total_size rs \<Longrightarrow> 0 \<le> p \<Longrightarrow> 0 \<le> len \<Longrightarrow> device_full rs ans \<Longrightarrow>
   int (length (read_bytes rs sz ans p len)) = min len (max 0 (sz - p))"
proof (induction rs sz ans p len rule: read_bytes.induct)
  case (1 rs sz ans p len)
  show ?case
  proof (cases "len > 0 \<and> p < sz")
    case False
    then show ?thesis using 1(4,5) by (auto simp: read_bytes_stop)
  next
    case True
    obtain data E where d: "partial_bytes rs ans p len = Some data" "p < E" "E \<le> total_size rs"
        "length data = nat (min len (E - p))"
      using partial_bytes_full[of rs p ans len] 1 True by auto
    have ne: "data \<noteq> []" using d True by auto
    have k: "int (length data) = min len (E - p)" using d True by auto
    have IH: "int (length (read_bytes rs sz ans (p + int (length data)) (len - int (length data))))
         = min (len - int (length data)) (max 0 (sz - (p + int (length data))))"
      using "1.IH"[OF True d(1) ne] 1(2-) k by auto
    have "read_bytes rs sz ans p len =
        data @ read_bytes rs sz ans (p + int (length data)) (len - int (length data))"
      using True d ne by (simp add: read_bytes_step)
    then have "int (length (read_bytes rs sz ans p len)) =
        min len (E - p) + min (len - min len (E - p)) (max 0 (sz - (p + min len (E - p))))"
      using IH k by simp
    also have "\<dots> = min len (max 0 (sz - p))"
      using d(2,3) True 1(3) by (simp add: min_def max_def)
    finally show ?thesis .
  qed
qed

subsection \<open>The OSX read loop\<close>

lemma OSX_PR_bytes:
  "fst (OSXMemory_PartialRead x len) = partial_bytes (mmap x) (dev_answer (mem_dev x)) (offset x) len"
  by (simp add: OSXMemory_PartialRead_def OSX_PR_loop_locate partial_bytes_def split: segment.splits)

lemma OSX_PR_frame:
  "offset (snd (OSXMemory_PartialRead x len)) = offset x"
  "mmap (snd (OSXMemory_PartialRead x len)) = mmap x"
  "dev_answer (mem_dev (snd (OSXMemory_PartialRead x len))) = dev_answer (mem_dev x)"
  by (simp_all add: OSXMemory_PartialRead_def OSX_PR_loop_locate split: segment.splits)

lemma OSX_size_nonempty: "mmap x \<noteq> [] \<Longrightarrow> OSXMemory_size x = Inr (total_size (mmap x))"
  by (cases "mmap x") (simp_all add: OSXMemory_size_def total_size_def case_prod_beta)

lemma OSX_size_empty: "mmap x = [] \<Longrightarrow> OSXMemory_size x = Inl IndexError"
  by (simp add: OSXMemory_size_def)

lemma OSX_Read_loop_empty:
  "mmap x = [] \<Longrightarrow>
   OSXMemory_Read_loop x len res = (if len > 0 then Inl IndexError else Inr (res, x))"
  by (subst OSXMemory_Read_loop.simps) (simp add: OSX_size_empty)

lemma OSX_Read_loop_nonpos:
  "len \<le> 0 \<Longrightarrow> OSXMemory_Read_loop x len res = Inr (res, x)"
  by (subst OSXMemory_Read_loop.simps) simp

lemma OSX_Read_loop_stop:
  "mmap x \<noteq> [] \<Longrightarrow> \<not> (len > 0 \<and> offset x < total_size (mmap x)) \<Longrightarrow>
   OSXMemory_Read_loop x len res = Inr (res, x)"
  by (subst OSXMemory_Read_loop.simps) (auto simp: OSX_size_nonempty)

lemma OSX_Read_loop_step:
  "mmap x \<noteq> [] \<Longrightarrow> len > 0 \<Longrightarrow> offset x < total_size (mmap x) \<Longrightarrow>
   OSXMemory_Read_loop x len res =
     (case OSXMemory_PartialRead x len of
        (None, x') \<Rightarrow> Inr (res, x')
      | (Some data, x') \<Rightarrow>
          if data = [] then Inr (res, x')
          else OSXMemory_Read_loop (x'\<lparr>offset := offset x' + int (length data)\<rparr>)
                 (len - int (length data)) (res @ data))"
  by (subst OSXMemory_Read_loop.simps) (simp add: OSX_size_nonempty)

lemma OSX_Read_loop_bytes:
  "mmap x \<noteq> [] \<Longrightarrow>
   \<exists>x'. OSXMemory_Read_loop x len res =
          Inr (res @ read_bytes (mmap x) (total_size (mmap x)) (dev_answer (mem_dev x)) (offset x) len, x')
      \<and> offset x' = offset x
           + int (length (read_bytes (mmap x) (total_size (mmap x)) (dev_answer (mem_dev x)) (offset x) len))
      \<and> mmap x' = mmap x
      \<and> dev_answer (mem_dev x') = dev_answer (mem_dev x)"
proof (induction x len res rule: OSXMemory_Read_loop.induct)
  case (1 x len res)
  note ne = \<open>mmap x \<noteq> []\<close>
  show ?case
  proof (cases "len > 0 \<and> offset x < total_size (mmap x)")
    case False
    then show ?thesis using ne
      by (simp add: OSX_Read_loop_stop read_bytes_stop)
  next
    case True
    obtain r x' where pr: "OSXMemory_PartialRead x len = (r, x')"
      by (cases "OSXMemory_PartialRead x len")
    have r: "r = partial_bytes (mmap x) (dev_answer (mem_dev x)) (offset x) len"
      using OSX_PR_bytes[of x len] pr by simp
    have fr: "offset x' = offset x" "mmap x' = mmap x"
      "dev_answer (mem_dev x') = dev_answer (mem_dev x)"
      using OSX_PR_frame[of x len] pr by simp_all
    show ?thesis
    proof (cases r)
      case None
      then show ?thesis using True pr r[symmetric] fr ne
        by (simp add: OSX_Read_loop_step read_bytes_step)
    next
      case (Some data)
      show ?thesis
      proof (cases "data = []")
        case True
        then show ?thesis using \<open>len > 0 \<and> offset x < total_size (mmap x)\<close> pr r[symmetric] fr Some ne
          by (simp add: OSX_Read_loop_step read_bytes_step)
      next
        case False
        have c1: "0 < len" using True by simp
        have c3: "offset x < total_size (mmap x)" using True by simp
        have ne': "mmap (x'\<lparr>offset := offset x' + int (length data)\<rparr>) \<noteq> []"
          using ne fr by simp
        note IH = "1.IH"[OF c1 OSX_size_nonempty[OF ne] c3 pr[symmetric] Some False ne']
        have unf: "OSXMemory_Read_loop x len res =
           OSXMemory_Read_loop (x'\<lparr>offset := offset x' + int (length data)\<rparr>)
             (len - int (length data)) (res @ data)"
          using True pr Some False ne by (simp add: OSX_Read_loop_step)
        have unf2: "read_bytes (mmap x) (total_size (mmap x)) (dev_answer (mem_dev x)) (offset x) len =
           data @ read_bytes (mmap x) (total_size (mmap x)) (dev_answer (mem_dev x))
              (offset x + int (length data)) (len - int (length data))"
          using True r[symmetric] Some False by (simp add: read_bytes_step)
        obtain y where y: "OSXMemory_Read_loop (x'\<lparr>offset := offset x' + int (length data)\<rparr>)
             (len - int (length data)) (res @ data) =
            Inr (res @ data @ read_bytes (mmap x) (total_size (mmap x)) (dev_answer (mem_dev x))
              (offset x + int (length data)) (len - int (length data)), y)"
          "offset y = offset x + int (length data)
            + int (length (read_bytes (mmap x) (total_size (mmap x)) (dev_answer (mem_dev x))
              (offset x + int (length data)) (len - int (length data))))"
          "mmap y = mmap x" "dev_answer (mem_dev y) = dev_answer (mem_dev x)"
          using IH fr by auto
        show ?thesis unfolding unf unf2 using y by (intro exI[of _ y]) simp
      qed
    qed
  qed
qed

subsection \<open>Which device calls a partial read makes\<close>

lemma zeros_set: "c \<in> set (zeros n) \<Longrightarrow> c = CHR 0x00"
  by (auto simp: zeros_def)

lemma locate_gap_found:
  assumes "ascending 0 rs" "0 \<le> p" "p < total_size rs" "\<not> covered rs p"
  shows "\<exists>(s, n) \<in> set rs. p < s \<and> locate p 0 rs = Gap s"
proof (cases "locate p 0 rs")
  case Nowhere
  then show ?thesis using locate_Nowhere_end[of 0 p rs] assms by (simp add: total_size_scan_end)
next
  case (Gap s)
  then show ?thesis using locate_Gap_less[OF Gap] locate_Gap_run[OF Gap] by auto
next
  case (Inside e)
  then show ?thesis using locate_not_covered[OF assms(4), of 0 e] by simp
qed

lemma Win_PR_cases:
  "(locate (offset h) 0 (runs h) = Nowhere \<and> WindowsMemory_PartialRead h len = (None, h))
 \<or> (\<exists>s. locate (offset h) 0 (runs h) = Gap s
        \<and> WindowsMemory_PartialRead h len = (Some (zeros (min len (s - offset h))), h))
 \<or> (\<exists>e. locate (offset h) 0 (runs h) = Inside e
        \<and> fst (WindowsMemory_PartialRead h len) = Some (dev_answer (win_fd h) (offset h) (min len (e - offset h)))
        \<and> dev_calls (win_fd (snd (WindowsMemory_PartialRead h len))) =
            dev_calls (win_fd h) @ [Seek_call (offset h), Read_call (min len (e - offset h))])"
  by (cases "locate (offset h) 0 (runs h)")
     (simp_all add: WindowsMemory_PartialRead_def Win_PR_loop_locate)

lemma OSX_PR_cases:
  "(locate (offset x) 0 (mmap x) = Nowhere \<and> OSXMemory_PartialRead x len = (None, x))
 \<or> (\<exists>s. locate (offset x) 0 (mmap x) = Gap s
        \<and> OSXMemory_PartialRead x len = (Some (zeros (min len (s - offset x))), x))
 \<or> (\<exists>e. locate (offset x) 0 (mmap x) = Inside e
        \<and> fst (OSXMemory_PartialRead x len) = Some (dev_answer (mem_dev x) (offset x) (min len (e - offset x)))
        \<and> dev_calls (mem_dev (snd (OSXMemory_PartialRead x len))) =
            dev_calls (mem_dev x) @ [Seek_call (offset x), Read_call (min len (e - offset x))])"
  by (cases "locate (offset x) 0 (mmap x)")
     (simp_all add: OSXMemory_PartialRead_def OSX_PR_loop_locate)

lemma Win_PR_gap:
  assumes "\<not> covered (runs h) (offset h)"
  shows "snd (WindowsMemory_PartialRead h len) = h
       \<and> (\<forall>data. fst (WindowsMemory_PartialRead h len) = Some data \<longrightarrow> set data \<subseteq> {CHR 0x00})"
  using Win_PR_cases[of h len] locate_not_covered[OF assms, of 0] by (auto dest: zeros_set)

lemma OSX_PR_gap:
  assumes "\<not> covered (mmap x) (offset x)"
  shows "snd (OSXMemory_PartialRead x len) = x
       \<and> (\<forall>data. fst (OSXMemory_PartialRead x len) = Some data \<longrightarrow> set data \<subseteq> {CHR 0x00})"
  using OSX_PR_cases[of x len] locate_not_covered[OF assms, of 0] by (auto dest: zeros_set)

lemma Win_PR_device:
  assumes "dev_calls (win_fd (snd (WindowsMemory_PartialRead h len))) \<noteq> dev_calls (win_fd h)"
  shows "\<exists>(start, n) \<in> set (runs h). start \<le> offset h \<and> offset h < start + n
      \<and> dev_calls (win_fd (snd (WindowsMemory_PartialRead h len))) =
          dev_calls (win_fd h) @ [Seek_call (offset h), Read_call (min len (start + n - offset h))]
      \<and> fst (WindowsMemory_PartialRead h len) =
          Some (dev_answer (win_fd h) (offset h) (min len (start + n - offset h)))"
proof -
  obtain e where e: "locate (offset h) 0 (runs h) = Inside e"
    "fst (WindowsMemory_PartialRead h len) = Some (dev_answer (win_fd h) (offset h) (min len (e - offset h)))"
    "dev_calls (win_fd (snd (WindowsMemory_PartialRead h len))) =
            dev_calls (win_fd h) @ [Seek_call (offset h), Read_call (min len (e - offset h))]"
    using Win_PR_cases[of h len] assms by auto
  from locate_Inside_run[OF e(1)] e(2,3) show ?thesis by fastforce
qed

lemma OSX_PR_device:
  assumes "dev_calls (mem_dev (snd (OSXMemory_PartialRead x len))) \<noteq> dev_calls (mem_dev x)"
  shows "\<exists>(start, n) \<in> set (mmap x). start \<le> offset x \<and> offset x < start + n
      \<and> dev_calls (mem_dev (snd (OSXMemory_PartialRead x len))) =
          dev_calls (mem_dev x) @ [Seek_call (offset x), Read_call (min len (start + n - offset x))]
      \<and> fst (OSXMemory_PartialRead x len) =
          Some (dev_answer (mem_dev x) (offset x) (min len (start + n - offset x)))"
proof -
  obtain e where e: "locate (offset x) 0 (mmap x) = Inside e"
    "fst (OSXMemory_PartialRead x len) = Some (dev_answer (mem_dev x) (offset x) (min len (e - offset x)))"
    "dev_calls (mem_dev (snd (OSXMemory_PartialRead x len))) =
            dev_calls (mem_dev x) @ [Seek_call (offset x), Read_call (min len (e - offset x))]"
    using OSX_PR_cases[of x len] assms by auto
  from locate_Inside_run[OF e(1)] e(2,3) show ?thesis by fastforce
qed

lemma Win_PR_in_gap:
  assumes "ascending 0 (runs h)" "0 \<le> offset h" "offset h < total_size (runs h)"
    "\<not> covered (runs h) (offset h)"
  shows "\<exists>(start, n) \<in> set (runs h). offset h < start
     \<and> WindowsMemory_PartialRead h len = (Some (zeros (min len (start - offset h))), h)"
  using locate_gap_found[OF assms] Win_PR_cases[of h len] by fastforce

lemma OSX_PR_in_gap:
  assumes "ascending 0 (mmap x)" "0 \<le> offset x" "offset x < total_size (mmap x)"
    "\<not> covered (mmap x) (offset x)"
  shows "\<exists>(start, n) \<in> set (mmap x). offset x < start
     \<and> OSXMemory_PartialRead x len = (Some (zeros (min len (start - offset x))), x)"
  using locate_gap_found[OF assms] OSX_PR_cases[of x len] by fastforce

lemma Win_PR_in_run:
  assumes "ascending 0 (runs h)" "(start, n) \<in> set (runs h)" "start \<le> offset h" "offset h < start + n"
  shows "fst (WindowsMemory_PartialRead h len) =
           Some (dev_answer (win_fd h) (offset h) (min len (start + n - offset h)))
       \<and> dev_calls (win_fd (snd (WindowsMemory_PartialRead h len))) =
           dev_calls (win_fd h) @ [Seek_call (offset h), Read_call (min len (start + n - offset h))]"
  using locate_in_run[OF assms] Win_PR_cases[of h len] by auto

lemma OSX_PR_in_run:
  assumes "ascending 0 (mmap x)" "(start, n) \<in> set (mmap x)" "start \<le> offset x" "offset x < start + n"
  shows "fst (OSXMemory_PartialRead x len) =
           Some (dev_answer (mem_dev x) (offset x) (min len (start + n - offset x)))
       \<and> dev_calls (mem_dev (snd (OSXMemory_PartialRead x len))) =
           dev_calls (mem_dev x) @ [Seek_call (offset x), Read_call (min len (start + n - offset x))]"
  using locate_in_run[OF assms] OSX_PR_cases[of x len] by auto

section \<open>The claims\<close>

subsection \<open>Facts about the examples\<close>

lemmas example_defs = win_example_def osx_example_def example_runs_def example_image_def
  image_device_def

lemma image_read_example:
  "0 \<le> p \<Longrightarrow> 0 \<le> n \<Longrightarrow> p + n \<le> 250 \<Longrightarrow>
   image_read example_image p n = replicate (nat n) (CHR ''M'')"
  by (simp add: image_read_def example_image_def min_def)

subsection \<open>Partial reads and the device\<close>

text \<open>
  Claim C3. When the cursor is covered by no run, a partial read leaves the handle and
  its device untouched and every byte it returns is zero; in a gap of an ascending
  region map (cursor from 0 and before the total size) it returns
  \<open>min(length, start - cursor)\<close> zero bytes up to the start of a run. The device is
  positioned and read only when the cursor lies inside a run \<open>[start, start + n)\<close>, and
  then the calls are one seek to the cursor and one read of
  \<open>min(length, start + n - cursor)\<close> bytes, whose answer is what the partial read
  returns; in an ascending region map this happens for every cursor inside a run. The same
  holds for \<^verbatim>\<open>WindowsMemory._PartialRead\<close> and \<^verbatim>\<open>OSXMemory._PartialRead\<close>.
\<close>

theorem partial_read_device_access:
  "(\<not> covered (runs h) (offset h) \<longrightarrow>
      snd (WindowsMemory_PartialRead h len) = h
      \<and> (\<forall>data. fst (WindowsMemory_PartialRead h len) = Some data \<longrightarrow> set data \<subseteq> {CHR 0x00}))
 \<and> (ascending 0 (runs h) \<and> 0 \<le> offset h \<and> offset h < total_size (runs h)
      \<and> \<not> covered (runs h) (offset h) \<longrightarrow>
      (\<exists>(start, n) \<in> set (runs h). offset h < start
         \<and> WindowsMemory_PartialRead h len = (Some (zeros (min len (start - offset h))), h)))
 \<and> (dev_calls (win_fd (snd (WindowsMemory_PartialRead h len))) \<noteq> dev_calls (win_fd h) \<longrightarrow>
      (\<exists>(start, n) \<in> set (runs h). start \<le> offset h \<and> offset h < start + n
         \<and> dev_calls (win_fd (snd (WindowsMemory_PartialRead h len))) =
             dev_calls (win_fd h) @ [Seek_call (offset h), Read_call (min len (start + n - offset h))]
         \<and> fst (WindowsMemory_PartialRead h len) =
             Some (dev_answer (win_fd h) (offset h) (min len (start + n - offset h)))))
 \<and> (ascending 0 (runs h) \<and> (s, l) \<in> set (runs h) \<and> s \<le> offset h \<and> offset h < s + l \<longrightarrow>
      fst (WindowsMemory_PartialRead h len) =
        Some (dev_answer (win_fd h) (offset h) (min len (s + l - offset h)))
      \<and> dev_calls (win_fd (snd (WindowsMemory_PartialRead h len))) =
          dev_calls (win_fd h) @ [Seek_call (offset h), Read_call (min len (s + l - offset h))])
 \<and> (\<not> covered (mmap x) (offset x) \<longrightarrow>
      snd (OSXMemory_PartialRead x len) = x
      \<and> (\<forall>data. fst (OSXMemory_PartialRead x len) = Some data \<longrightarrow> set data \<subseteq> {CHR 0x00}))
 \<and> (ascending 0 (mmap x) \<and> 0 \<le> offset x \<and> offset x < total_size (mmap x)
      \<and> \<not> covered (mmap x) (offset x) \<longrightarrow>
      (\<exists>(start, n) \<in> set (mmap x). offset x < start
         \<and> OSXMemory_PartialRead x len = (Some (zeros (min len (start - offset x))), x)))
 \<and> (dev_calls (mem_dev (snd (OSXMemory_PartialRead x len))) \<noteq> dev_calls (mem_dev x) \<longrightarrow>
      (\<exists>(start, n) \<in> set (mmap x). start \<le> offset x \<and> offset x < start + n
         \<and> dev_calls (mem_dev (snd (OSXMemory_PartialRead x len))) =
             dev_calls (mem_dev x) @ [Seek_call (offset x), Read_call (min len (start + n - offset x))]
         \<and> fst (OSXMemory_PartialRead x len) =
             Some (dev_answer (mem_dev x) (offset x) (min len (start + n - offset x)))))
 \<and> (ascending 0 (mmap x) \<and> (s, l) \<in> set (mmap x) \<and> s \<le> offset x \<and> offset x < s + l \<longrightarrow>
      fst (OSXMemory_PartialRead x len) =
        Some (dev_answer (mem_dev x) (offset x) (min len (s + l - offset x)))
      \<and> dev_calls (mem_dev (snd (OSXMemory_PartialRead x len))) =
          dev_calls (mem_dev x) @ [Seek_call (offset x), Read_call (min len (s + l - offset x))])"
  using Win_PR_gap[of h len] Win_PR_in_gap[of h len] Win_PR_device[of h len]
    Win_PR_in_run[of h s l len]
    OSX_PR_gap[of x len] OSX_PR_in_gap[of x len] OSX_PR_device[of x len]
    OSX_PR_in_run[of x s l len]
  by blast

text \<open>The theorem at the example map: cursor 150 lies in the gap, cursor 210 in the second run.\<close>

theorem partial_read_device_access_witness:
  "\<not> covered (runs (win_example 150)) (offset (win_example 150))
   \<and> ascending 0 (runs (win_example 150))
   \<and> snd (WindowsMemory_PartialRead (win_example 150) 80) = win_example 150
   \<and> (\<exists>(start, n) \<in> set (runs (win_example 150)). 150 < start \<and>
         WindowsMemory_PartialRead (win_example 150) 80
           = (Some (zeros (min 80 (start - 150))), win_example 150))
   \<and> (200, 50) \<in> set (mmap (osx_example 210))
   \<and> fst (OSXMemory_PartialRead (osx_example 210) 80)
        = Some (dev_answer (mem_dev (osx_example 210)) 210 40)
   \<and> dev_calls (mem_dev (snd (OSXMemory_PartialRead (osx_example 210) 80)))
        = [Seek_call 210, Read_call 40]"
proof -
  have g: "\<not> covered (runs (win_example 150)) (offset (win_example 150))"
    by (simp add: example_defs covered_def)
  have a: "ascending 0 (runs (win_example 150))" "0 \<le> offset (win_example 150)"
    "offset (win_example 150) < total_size (runs (win_example 150))"
    by (simp_all add: example_defs total_size_def)
  have r: "ascending 0 (mmap (osx_example 210))" "(200, 50) \<in> set (mmap (osx_example 210))"
    "200 \<le> offset (osx_example 210)" "offset (osx_example 210) < 200 + 50"
    by (simp_all add: example_defs)
  have o: "offset (win_example 150) = 150" "offset (osx_example 210) = 210"
    "dev_calls (mem_dev (osx_example 210)) = []"
    by (simp_all add: example_defs)
  show ?thesis
    using partial_read_device_access[of "win_example 150" 80 200 50 "osx_example 210"] g a r
    unfolding o by simp
qed

subsection \<open>The length of what Read returns\<close>

lemma Win_Read_bytes:
  "fst (WindowsMemory_Read h len) =
     read_bytes (runs h) (win_size h) (dev_answer (win_fd h)) (offset h) len"
  "offset (snd (WindowsMemory_Read h len)) = offset h + int (length (fst (WindowsMemory_Read h len)))"
  "runs (snd (WindowsMemory_Read h len)) = runs h"
  "win_size (snd (WindowsMemory_Read h len)) = win_size h"
  "dev_answer (win_fd (snd (WindowsMemory_Read h len))) = dev_answer (win_fd h)"
  using Win_Read_loop_bytes[of h len "[]"] by (simp_all add: WindowsMemory_Read_def)

lemma OSX_Read_bytes:
  assumes "mmap x \<noteq> []"
  shows "\<exists>x'. OSXMemory_Read x len =
          Inr (read_bytes (mmap x) (total_size (mmap x)) (dev_answer (mem_dev x)) (offset x) len, x')
      \<and> offset x' = offset x
           + int (length (read_bytes (mmap x) (total_size (mmap x)) (dev_answer (mem_dev x)) (offset x) len))
      \<and> mmap x' = mmap x
      \<and> dev_answer (mem_dev x') = dev_answer (mem_dev x)"
  using OSX_Read_loop_bytes[OF assms, of len "[]"] by (simp add: OSXMemory_Read_def)

lemma OSX_Read_empty:
  "mmap x = [] \<Longrightarrow> OSXMemory_Read x len = (if len > 0 then Inl IndexError else Inr ([], x))"
  by (simp add: OSXMemory_Read_def OSX_Read_loop_empty)

lemma Win_Read_stop:
  "len \<le> 0 \<or> win_size h \<le> offset h \<Longrightarrow> WindowsMemory_Read h len = ([], h)"
  by (auto simp: WindowsMemory_Read_def Win_Read_loop_stop)

lemma OSX_Read_nonpos: "len \<le> 0 \<Longrightarrow> OSXMemory_Read x len = Inr ([], x)"
  by (simp add: OSXMemory_Read_def OSX_Read_loop_nonpos)

lemma OSX_Read_past_end:
  "mmap x \<noteq> [] \<Longrightarrow> total_size (mmap x) \<le> offset x \<Longrightarrow> OSXMemory_Read x len = Inr ([], x)"
  by (simp add: OSXMemory_Read_def OSX_Read_loop_stop)

lemma length_cases:
  assumes "int n = min len (max 0 (sz - p))" "0 \<le> len"
  shows "int n \<le> len \<and> (p + len \<le> sz \<longrightarrow> int n = len) \<and> (sz < p + len \<longrightarrow> int n = max 0 (sz - p))"
  using assms by (auto simp: min_def max_def)

lemma Win_Read_length:
  assumes "ascending 0 (runs h)" "win_size h = total_size (runs h)" "0 \<le> offset h" "0 \<le> len"
    "device_full (runs h) (dev_answer (win_fd h))"
  shows "int (length (fst (WindowsMemory_Read h len))) \<le> len
      \<and> (offset h + len \<le> win_size h \<longrightarrow> int (length (fst (WindowsMemory_Read h len))) = len)
      \<and> (win_size h < offset h + len \<longrightarrow>
           int (length (fst (WindowsMemory_Read h len))) = max 0 (win_size h - offset h))"
proof -
  have "int (length (fst (WindowsMemory_Read h len))) = min len (max 0 (win_size h - offset h))"
    using assms by (simp add: Win_Read_bytes(1) read_bytes_length)
  from length_cases[OF this assms(4)] show ?thesis .
qed

lemma OSX_Read_length:
  assumes "ascending 0 (mmap x)" "mmap x \<noteq> []" "0 \<le> offset x" "0 \<le> len"
    "device_full (mmap x) (dev_answer (mem_dev x))"
  shows "\<exists>data x'. OSXMemory_Read x len = Inr (data, x')
         \<and> int (length data) \<le> len
         \<and> (offset x + len \<le> total_size (mmap x) \<longrightarrow> int (length data) = len)
         \<and> (total_size (mmap x) < offset x + len \<longrightarrow>
              int (length data) = max 0 (total_size (mmap x) - offset x))"
proof -
  let ?d = "read_bytes (mmap x) (total_size (mmap x)) (dev_answer (mem_dev x)) (offset x) len"
  obtain x' where r: "OSXMemory_Read x len = Inr (?d, x')"
    using OSX_Read_bytes[of x len] assms by blast
  have "int (length ?d) = min len (max 0 (total_size (mmap x) - offset x))"
    using assms by (simp add: read_bytes_length)
  from length_cases[OF this assms(4)] r show ?thesis by simp
qed

text \<open>
  Claim C1, amended. For a region map whose runs are ascending and do not overlap (on OSX:
  a non-empty one), a cursor \<open>offset \<ge> 0\<close> and a requested length \<open>\<ge> 0\<close>, over a device
  that returns every byte asked of it inside a run, \<^verbatim>\<open>Read\<close> returns at most \<open>length\<close>
  bytes: exactly \<open>length\<close> when \<open>offset + length \<le> total_size\<close>, and otherwise exactly
  \<open>max(0, total_size - offset)\<close>. On Windows \<open>total_size\<close> is the attribute \<^verbatim>\<open>size\<close>,
  which \<^verbatim>\<open>__init__\<close> sets to the end of the last run; on OSX it is the property
  \<^verbatim>\<open>size\<close>.
\<close>

theorem Read_returned_length:
  "(ascending 0 (runs h) \<and> win_size h = total_size (runs h) \<and> 0 \<le> offset h \<and> 0 \<le> len
      \<and> device_full (runs h) (dev_answer (win_fd h)) \<longrightarrow>
      int (length (fst (WindowsMemory_Read h len))) \<le> len
      \<and> (offset h + len \<le> win_size h \<longrightarrow> int (length (fst (WindowsMemory_Read h len))) = len)
      \<and> (win_size h < offset h + len \<longrightarrow>
           int (length (fst (WindowsMemory_Read h len))) = max 0 (win_size h - offset h)))
 \<and> (ascending 0 (mmap x) \<and> mmap x \<noteq> [] \<and> 0 \<le> offset x \<and> 0 \<le> len
      \<and> device_full (mmap x) (dev_answer (mem_dev x)) \<longrightarrow>
      (\<exists>data x'. OSXMemory_Read x len = Inr (data, x')
         \<and> int (length data) \<le> len
         \<and> (offset x + len \<le> total_size (mmap x) \<longrightarrow> int (length data) = len)
         \<and> (total_size (mmap x) < offset x + len \<longrightarrow>
              int (length data) = max 0 (total_size (mmap x) - offset x))))"
  using Win_Read_length[of h len] OSX_Read_length[of x len] by blast

lemma device_full_example: "device_full example_runs (image_read example_image)"
  by (auto simp: device_full_def example_runs_def image_read_example)


text \<open>The scenario \<^verbatim>\<open>seek(240); read(50)\<close> returns 10 bytes; \<^verbatim>\<open>seek(50); read(100)\<close>
  returns 100.\<close>

theorem Read_returned_length_witness:
  "ascending 0 (runs (win_example 240)) \<and> win_size (win_example 240) = total_size (runs (win_example 240))
   \<and> device_full (runs (win_example 240)) (dev_answer (win_fd (win_example 240)))
   \<and> int (length (fst (WindowsMemory_Read (win_example 240) 50))) = 10
   \<and> ascending 0 (mmap (osx_example 50)) \<and> mmap (osx_example 50) \<noteq> []
   \<and> device_full (mmap (osx_example 50)) (dev_answer (mem_dev (osx_example 50)))
   \<and> (\<exists>data x'. OSXMemory_Read (osx_example 50) 100 = Inr (data, x') \<and> int (length data) = 100)"
proof -
  have w: "ascending 0 (runs (win_example 240))"
    "win_size (win_example 240) = total_size (runs (win_example 240))"
    "0 \<le> offset (win_example 240)" "(0::int) \<le> 50"
    "device_full (runs (win_example 240)) (dev_answer (win_fd (win_example 240)))"
    using device_full_example by (simp_all add: example_defs total_size_def)
  have x: "ascending 0 (mmap (osx_example 50))" "mmap (osx_example 50) \<noteq> []"
    "0 \<le> offset (osx_example 50)" "(0::int) \<le> 100"
    "device_full (mmap (osx_example 50)) (dev_answer (mem_dev (osx_example 50)))"
    using device_full_example by (simp_all add: example_defs)
  have v: "win_size (win_example 240) = 250" "offset (win_example 240) = 240"
    "total_size (mmap (osx_example 50)) = 250" "offset (osx_example 50) = 50"
    by (simp_all add: example_defs total_size_def)
  from Read_returned_length[of "win_example 240" 50 "osx_example 50"] w
  have 1: "int (length (fst (WindowsMemory_Read (win_example 240) 50))) = 10"
    unfolding v by simp
  from Read_returned_length[of "win_example 0" 100 "osx_example 50"] x
  have 2: "\<exists>data x'. OSXMemory_Read (osx_example 50) 100 = Inr (data, x') \<and> int (length data) = 100"
    unfolding v by fastforce
  show ?thesis using w x 1 2 by simp
qed

text \<open>
  The claim as stated fails at two inputs. A negative length: \<^verbatim>\<open>Read(-1)\<close> at cursor 0 of
  the example map returns the empty string, which is neither at most \<open>-1\<close> bytes nor
  exactly \<open>-1\<close> bytes although \<open>0 + (-1) \<le> 250\<close>. An empty map on OSX: the loop
  condition evaluates the property \<^verbatim>\<open>size\<close>, whose \<^verbatim>\<open>self.mmap[-1]\<close> raises
  \<^verbatim>\<open>IndexError\<close>, so \<^verbatim>\<open>Read(1)\<close> returns nothing at all.
\<close>

theorem Read_returned_length_counterexample:
  "WindowsMemory_Read (win_example 0) (- 1) = ([], win_example 0)
   \<and> offset (win_example 0) + (- 1) \<le> win_size (win_example 0)
   \<and> \<not> int (length (fst (WindowsMemory_Read (win_example 0) (- 1)))) \<le> - 1
   \<and> OSXMemory_Read (osx_empty 0) 1 = Inl IndexError"
  by (simp add: OSX_Read_empty osx_empty_def Win_Read_stop win_example_def)

subsection \<open>The cursor after Read, and the size of an empty map\<close>

lemma Win_Read_cursor:
  "(len \<le> 0 \<or> win_size h \<le> offset h \<longrightarrow> WindowsMemory_Read h len = ([], h))
   \<and> offset (snd (WindowsMemory_Read h len)) =
       offset h + int (length (fst (WindowsMemory_Read h len)))"
  using Win_Read_stop[of len h] Win_Read_bytes(2)[of h len] by blast

lemma OSX_Read_cursor:
  "(len \<le> 0 \<longrightarrow> OSXMemory_Read x len = Inr ([], x))
   \<and> (mmap x \<noteq> [] \<longrightarrow>
        (total_size (mmap x) \<le> offset x \<longrightarrow> OSXMemory_Read x len = Inr ([], x))
        \<and> (\<exists>data x'. OSXMemory_Read x len = Inr (data, x')
              \<and> offset x' = offset x + int (length data)))"
  using OSX_Read_nonpos[of len x] OSX_Read_past_end[of x len] OSX_Read_bytes[of x len]
  by blast

text \<open>
  Claim C10 holds for \<^verbatim>\<open>WindowsMemory.Read\<close> on every handle and for \<^verbatim>\<open>OSXMemory.Read\<close>
  on every non-empty map (the two lemmas above). It fails on OSX for the empty map: with the
  cursor at 0, which is at the total size of an empty map, \<^verbatim>\<open>Read(5)\<close> raises
  \<^verbatim>\<open>IndexError\<close> where the Windows handler returns the empty string and leaves the cursor.
\<close>

theorem osx_read_empty_map_raises:
  "OSXMemory_Read (osx_empty 0) 5 = Inl IndexError
   \<and> WindowsMemory_Read (win_empty 0) 5 = ([], win_empty 0)"
  by (simp add: OSX_Read_empty osx_empty_def Win_Read_stop win_empty_def)

text \<open>
  Claim C4: the size of a handle is the end of its last run, and 0 for an empty map. On
  OSX the property \<^verbatim>\<open>size\<close> is the end of the last run of a non-empty map
  (\<open>OSX_size_nonempty\<close>), but it raises \<^verbatim>\<open>IndexError\<close> for the empty map, where the
  attribute set by \<^verbatim>\<open>WindowsMemory.__init__\<close> is 0.
\<close>

theorem osx_size_empty_map_raises:
  "OSXMemory_size (osx_empty 0) = Inl IndexError \<and> total_size (mmap (osx_empty 0)) = 0"
  by (simp add: OSXMemory_size_def osx_empty_def total_size_def)

subsection \<open>A read that starts in a gap and ends in the following run\<close>

lemma locate_skip_prefix:
  assumes "ascending le (pre @ rest)" "scan_end le pre \<le> p" "le \<le> p"
  shows "locate p le (pre @ rest) = locate p (scan_end le pre) rest"
  using assms
proof (induction pre arbitrary: le)
  case Nil
  then show ?case by simp
next
  case (Cons r pre)
  obtain s l where r: "r = (s, l)" by (cases r)
  have asc: "ascending (s + l) (pre @ rest)" and sl: "le \<le> s" "0 \<le> l"
    using Cons.prems(1) r by auto
  have "ascending (s + l) pre" using asc
    by (induction pre arbitrary: s l) auto
  then have "s + l \<le> scan_end (s + l) pre" by (rule ascending_scan_end)
  then have e: "s + l \<le> p" using Cons.prems(2) r by simp
  then have "locate p le (r # pre @ rest) = locate p (s + l) (pre @ rest)"
    using r sl by simp
  also have "\<dots> = locate p (scan_end (s + l) pre) rest"
    using Cons.IH[OF asc] Cons.prems(2) r e by simp
  finally show ?case using r by simp
qed


lemma ascending_append_end:
  "ascending le (pre @ rest) \<Longrightarrow> ascending (scan_end le pre) rest \<and> le \<le> scan_end le pre"
  by (induction pre arbitrary: le) (auto, force)

lemma scan_end_append: "scan_end le (pre @ rest) = scan_end (scan_end le pre) rest"
  by (induction pre arbitrary: le) auto

lemma read_bytes_gap_then_run:
  assumes rs: "rs = pre @ (s, l) # post" and asc: "ascending 0 rs" and sz: "sz = total_size rs"
    and p: "scan_end 0 pre \<le> p" "0 \<le> p" "p < s" and l: "0 < l" and len: "s < p + len"
  shows "read_bytes rs sz ans p len =
           zeros (s - p) @
           (if ans s (min (p + len - s) l) = [] then []
            else ans s (min (p + len - s) l) @
                 read_bytes rs sz ans (s + int (length (ans s (min (p + len - s) l))))
                   (p + len - s - int (length (ans s (min (p + len - s) l)))))"
proof -
  have asc': "ascending (scan_end 0 pre) ((s, l) # post)"
    using ascending_append_end[of 0 pre "(s, l) # post"] asc rs by simp
  then have "s + l \<le> scan_end (s + l) post" using ascending_scan_end[of "s + l" post] by simp
  then have end_le: "s + l \<le> sz"
    by (simp add: sz total_size_scan_end rs scan_end_append)
  have loc_p: "locate p 0 rs = Gap s"
    using locate_skip_prefix[of 0 pre "(s, l) # post" p] asc rs p by simp
  have pre_s: "scan_end 0 pre \<le> s" using asc' by simp
  have loc_s: "locate s 0 rs = Inside (s + l)"
    using locate_skip_prefix[of 0 pre "(s, l) # post" s] asc rs p pre_s l by simp
  have pb_p: "partial_bytes rs ans p len = Some (zeros (s - p))"
    using loc_p len by (simp add: partial_bytes_def min_def)
  have z: "zeros (s - p) \<noteq> []" "int (length (zeros (s - p))) = s - p"
    using p by (auto simp: zeros_def)
  have step1: "read_bytes rs sz ans p len = zeros (s - p) @ read_bytes rs sz ans s (p + len - s)"
  proof -
    have "read_bytes rs sz ans p len =
        zeros (s - p) @ read_bytes rs sz ans (p + (s - p)) (len - (s - p))"
      using pb_p z p len l end_le by (subst read_bytes_step) simp_all
    moreover have "p + (s - p) = s" "len - (s - p) = p + len - s" by simp_all
    ultimately show ?thesis by simp
  qed
  have pb_s: "partial_bytes rs ans s (p + len - s) = Some (ans s (min (p + len - s) l))"
    using loc_s by (simp add: partial_bytes_def)
  have step2: "read_bytes rs sz ans s (p + len - s) =
      (if ans s (min (p + len - s) l) = [] then []
            else ans s (min (p + len - s) l) @
                 read_bytes rs sz ans (s + int (length (ans s (min (p + len - s) l))))
                   (p + len - s - int (length (ans s (min (p + len - s) l)))))"
    using pb_s len l end_le by (subst read_bytes_step) simp_all
  show ?thesis unfolding step1 step2 ..
qed


lemma read_bytes_gap_then_run_ex:
  assumes "rs = pre @ (s, l) # post" "ascending 0 rs" "sz = total_size rs"
    "total_size pre \<le> p" "0 \<le> p" "p < s" "0 < l" "s < p + len"
  shows "\<exists>rest. read_bytes rs sz ans p len = zeros (s - p) @ ans s (min (p + len - s) l) @ rest
           \<and> (p + len \<le> s + l \<and> int (length (ans s (min (p + len - s) l))) = p + len - s \<longrightarrow>
                rest = [])"
proof -
  let ?d = "ans s (min (p + len - s) l)"
  let ?rest = "if ?d = [] then [] else
      read_bytes rs sz ans (s + int (length ?d)) (p + len - s - int (length ?d))"
  have "read_bytes rs sz ans p len = zeros (s - p) @ ?d @ ?rest"
    using read_bytes_gap_then_run[OF assms(1-3) _ assms(5-8), of ans] assms(4)
    by (simp add: total_size_scan_end)
  moreover have "int (length ?d) = p + len - s \<longrightarrow> ?rest = []"
    by (simp add: read_bytes_stop)
  ultimately show ?thesis by blast
qed

lemma Win_Read_gap_then_run:
  assumes "runs h = pre @ (s, l) # post" "ascending 0 (runs h)" "win_size h = total_size (runs h)"
    "total_size pre \<le> offset h" "0 \<le> offset h" "offset h < s" "0 < l" "s < offset h + len"
  shows "\<exists>rest. fst (WindowsMemory_Read h len) =
             zeros (s - offset h) @ dev_answer (win_fd h) s (min (offset h + len - s) l) @ rest
           \<and> (offset h + len \<le> s + l
                \<and> int (length (dev_answer (win_fd h) s (min (offset h + len - s) l))) = offset h + len - s \<longrightarrow>
                rest = [] \<and> offset (snd (WindowsMemory_Read h len)) = offset h + len)"
proof -
  obtain rest where r: "fst (WindowsMemory_Read h len) =
             zeros (s - offset h) @ dev_answer (win_fd h) s (min (offset h + len - s) l) @ rest"
     "offset h + len \<le> s + l
        \<and> int (length (dev_answer (win_fd h) s (min (offset h + len - s) l))) = offset h + len - s \<longrightarrow>
        rest = []"
    using read_bytes_gap_then_run_ex[OF assms(1,2) assms(3) assms(4-8), of "dev_answer (win_fd h)"]
    by (auto simp: Win_Read_bytes(1))
  have "int (length (dev_answer (win_fd h) s (min (offset h + len - s) l))) = offset h + len - s \<Longrightarrow>
      rest = [] \<Longrightarrow> offset (snd (WindowsMemory_Read h len)) = offset h + len"
    using assms(6) by (simp add: Win_Read_bytes(2) r(1))
  then show ?thesis using r by blast
qed

lemma OSX_Read_gap_then_run:
  assumes "mmap x = pre @ (s, l) # post" "ascending 0 (mmap x)"
    "total_size pre \<le> offset x" "0 \<le> offset x" "offset x < s" "0 < l" "s < offset x + len"
  shows "\<exists>rest x'. OSXMemory_Read x len =
             Inr (zeros (s - offset x) @ dev_answer (mem_dev x) s (min (offset x + len - s) l) @ rest, x')
           \<and> (offset x + len \<le> s + l
                \<and> int (length (dev_answer (mem_dev x) s (min (offset x + len - s) l))) = offset x + len - s \<longrightarrow>
                rest = [] \<and> offset x' = offset x + len)"
proof -
  have ne: "mmap x \<noteq> []" using assms(1) by simp
  let ?rb = "read_bytes (mmap x) (total_size (mmap x)) (dev_answer (mem_dev x)) (offset x) len"
  obtain x' where x': "OSXMemory_Read x len = Inr (?rb, x')" "offset x' = offset x + int (length ?rb)"
    using OSX_Read_bytes[OF ne, of len] by blast
  obtain rest where r: "?rb =
             zeros (s - offset x) @ dev_answer (mem_dev x) s (min (offset x + len - s) l) @ rest"
     "offset x + len \<le> s + l
        \<and> int (length (dev_answer (mem_dev x) s (min (offset x + len - s) l))) = offset x + len - s \<longrightarrow>
        rest = []"
    using read_bytes_gap_then_run_ex[OF assms(1,2) refl assms(3-7), of "dev_answer (mem_dev x)"]
    by auto
  have "int (length (dev_answer (mem_dev x) s (min (offset x + len - s) l))) = offset x + len - s \<Longrightarrow>
      rest = [] \<Longrightarrow> offset x' = offset x + len"
    using assms(5) by (simp add: x'(2) r(1))
  then show ?thesis using r x'(1) by (intro exI[of _ rest] exI[of _ x']) auto
qed

lemma read_bytes_scenario:
  assumes "length (ans 50 50) = 50"
  shows "read_bytes example_runs 250 ans 50 100 = ans 50 50 @ zeros 50"
proof -
  have ne: "ans 50 50 \<noteq> []" using assms by auto
  have 1: "partial_bytes example_runs ans 50 100 = Some (ans 50 50)"
    by (simp add: partial_bytes_def example_runs_def)
  have 2: "partial_bytes example_runs ans 100 50 = Some (zeros 50)"
    by (simp add: partial_bytes_def example_runs_def)
  have z: "zeros 50 \<noteq> []" "length (zeros 50) = 50" by (simp_all add: zeros_def)
  have "read_bytes example_runs 250 ans 50 100 = ans 50 50 @ read_bytes example_runs 250 ans 100 50"
    using 1 ne assms by (subst read_bytes_step) simp_all
  also have "read_bytes example_runs 250 ans 100 50 = zeros 50 @ read_bytes example_runs 250 ans 150 0"
    using 2 z by (subst read_bytes_step) simp_all
  also have "read_bytes example_runs 250 ans 150 0 = []" by (simp add: read_bytes_stop)
  finally show ?thesis by simp
qed

lemma Win_Read_scenario:
  assumes "runs h = example_runs" "win_size h = 250" "offset h = 50"
    "length (dev_answer (win_fd h) 50 50) = 50"
  shows "fst (WindowsMemory_Read h 100) = dev_answer (win_fd h) 50 50 @ zeros 50
       \<and> offset (snd (WindowsMemory_Read h 100)) = 150"
  using read_bytes_scenario[of "dev_answer (win_fd h)"] assms
  by (simp add: Win_Read_bytes(1,2))

lemma OSX_Read_scenario:
  assumes "mmap x = example_runs" "offset x = 50"
    "length (dev_answer (mem_dev x) 50 50) = 50"
  shows "\<exists>x'. OSXMemory_Read x 100 = Inr (dev_answer (mem_dev x) 50 50 @ zeros 50, x')
       \<and> offset x' = 150"
proof -
  have ne: "mmap x \<noteq> []" using assms(1) by (simp add: example_runs_def)
  have ts: "total_size example_runs = 250" by (simp add: example_runs_def total_size_def)
  show ?thesis
    using OSX_Read_bytes[OF ne, of 100] read_bytes_scenario[of "dev_answer (mem_dev x)"] assms
    by (auto simp: ts)
qed


text \<open>
  Claim C2. A read that starts in the gap before a run \<open>(s, l)\<close> of an ascending region map
  (every earlier run ends at or before the cursor, and the cursor is before \<open>s\<close>) and
  reaches into that run returns \<open>s - offset\<close> zero bytes, reaching exactly to the start of
  the run, followed by what the device answers at \<open>s\<close> for the rest of the request
  (bounded by the run); when the request ends inside the run and the device returns all
  of it, that is the whole result and the cursor ends at \<open>offset + length\<close>. In the
  scenario (runs \<open>[(0,100), (200,50)]\<close>, size 250, cursor 50, \<^verbatim>\<open>read(100)\<close>) the result is
  the 50 device bytes of offsets 50..99 followed by 50 zero bytes, and the cursor ends at
  150. Both hold for \<^verbatim>\<open>WindowsMemory\<close> and \<^verbatim>\<open>OSXMemory\<close>.
\<close>

theorem read_across_gap_and_run:
  "(runs h = pre @ (s, l) # post \<and> ascending 0 (runs h) \<and> win_size h = total_size (runs h)
      \<and> total_size pre \<le> offset h \<and> 0 \<le> offset h \<and> offset h < s \<and> 0 < l
      \<and> s < offset h + len \<longrightarrow>
      (\<exists>rest. fst (WindowsMemory_Read h len) =
             zeros (s - offset h) @ dev_answer (win_fd h) s (min (offset h + len - s) l) @ rest
           \<and> (offset h + len \<le> s + l
                \<and> int (length (dev_answer (win_fd h) s (min (offset h + len - s) l)))
                    = offset h + len - s \<longrightarrow>
                rest = [] \<and> offset (snd (WindowsMemory_Read h len)) = offset h + len)))
 \<and> (mmap x = pre @ (s, l) # post \<and> ascending 0 (mmap x)
      \<and> total_size pre \<le> offset x \<and> 0 \<le> offset x \<and> offset x < s \<and> 0 < l
      \<and> s < offset x + len \<longrightarrow>
      (\<exists>rest x'. OSXMemory_Read x len =
             Inr (zeros (s - offset x) @ dev_answer (mem_dev x) s (min (offset x + len - s) l) @ rest, x')
           \<and> (offset x + len \<le> s + l
                \<and> int (length (dev_answer (mem_dev x) s (min (offset x + len - s) l)))
                    = offset x + len - s \<longrightarrow>
                rest = [] \<and> offset x' = offset x + len)))
 \<and> (runs h2 = example_runs \<and> win_size h2 = 250 \<and> offset h2 = 50
      \<and> length (dev_answer (win_fd h2) 50 50) = 50 \<longrightarrow>
      fst (WindowsMemory_Read h2 100) = dev_answer (win_fd h2) 50 50 @ zeros 50
      \<and> offset (snd (WindowsMemory_Read h2 100)) = 150)
 \<and> (mmap x2 = example_runs \<and> offset x2 = 50
      \<and> length (dev_answer (mem_dev x2) 50 50) = 50 \<longrightarrow>
      (\<exists>x'. OSXMemory_Read x2 100 = Inr (dev_answer (mem_dev x2) 50 50 @ zeros 50, x')
         \<and> offset x' = 150))"
  using Win_Read_gap_then_run[of h pre s l post len] OSX_Read_gap_then_run[of x pre s l post len]
    Win_Read_scenario[of h2] OSX_Read_scenario[of x2]
  by blast

text \<open>The theorem at the example map: a read of 80 bytes from cursor 150 (in the gap) into
  the run at 200, and the scenario itself.\<close>

theorem read_across_gap_and_run_witness:
  "runs (win_example 150) = [(0, 100)] @ (200, 50) # [] \<and> ascending 0 (runs (win_example 150))
   \<and> total_size [(0, 100)] \<le> offset (win_example 150)
   \<and> fst (WindowsMemory_Read (win_example 150) 80) = zeros 50 @ replicate 30 (CHR ''M'')
   \<and> offset (snd (WindowsMemory_Read (win_example 150) 80)) = 230
   \<and> (\<exists>x'. OSXMemory_Read (osx_example 150) 80 = Inr (zeros 50 @ replicate 30 (CHR ''M''), x')
         \<and> offset x' = 230)
   \<and> fst (WindowsMemory_Read (win_example 50) 100) = replicate 50 (CHR ''M'') @ zeros 50
   \<and> offset (snd (WindowsMemory_Read (win_example 50) 100)) = 150
   \<and> (\<exists>x'. OSXMemory_Read (osx_example 50) 100 = Inr (replicate 50 (CHR ''M'') @ zeros 50, x')
         \<and> offset x' = 150)"
proof -
  have w: "runs (win_example 150) = [(0, 100)] @ (200, 50) # []" "ascending 0 (runs (win_example 150))"
    "win_size (win_example 150) = total_size (runs (win_example 150))"
    "total_size [(0, 100)] \<le> offset (win_example 150)" "0 \<le> offset (win_example 150)"
    "offset (win_example 150) < 200" "(0::int) < 50" "200 < offset (win_example 150) + 80"
    by (simp_all add: example_defs total_size_def)
  have x: "mmap (osx_example 150) = [(0, 100)] @ (200, 50) # []" "ascending 0 (mmap (osx_example 150))"
    "total_size [(0, 100)] \<le> offset (osx_example 150)" "0 \<le> offset (osx_example 150)"
    "offset (osx_example 150) < 200" "200 < offset (osx_example 150) + 80"
    by (simp_all add: example_defs total_size_def)
  have s: "runs (win_example 50) = example_runs" "win_size (win_example 50) = 250"
    "offset (win_example 50) = 50" "mmap (osx_example 50) = example_runs"
    "offset (osx_example 50) = 50"
    by (simp_all add: example_defs)
  have d: "dev_answer (win_fd (win_example p)) = image_read example_image"
    "dev_answer (mem_dev (osx_example p)) = image_read example_image" for p
    by (simp_all add: example_defs)
  have o: "offset (win_example 150) = 150" "offset (osx_example 150) = 150"
    by (simp_all add: example_defs)
  note t = read_across_gap_and_run[of "win_example 150" "[(0, 100)]" 200 50 "[]" 80
      "osx_example 150" "win_example 50" "osx_example 50"]
  have 1: "fst (WindowsMemory_Read (win_example 150) 80) = zeros 50 @ replicate 30 (CHR ''M'')
      \<and> offset (snd (WindowsMemory_Read (win_example 150) 80)) = 230"
    using t w by (auto simp: d o image_read_example)
  have 2: "\<exists>x'. OSXMemory_Read (osx_example 150) 80 = Inr (zeros 50 @ replicate 30 (CHR ''M''), x')
         \<and> offset x' = 230"
    using t x by (auto simp: d o image_read_example)
  have 3: "fst (WindowsMemory_Read (win_example 50) 100) = replicate 50 (CHR ''M'') @ zeros 50
      \<and> offset (snd (WindowsMemory_Read (win_example 50) 100)) = 150"
    using t s by (simp add: d image_read_example)
  have 4: "\<exists>x'. OSXMemory_Read (osx_example 50) 100 = Inr (replicate 50 (CHR ''M'') @ zeros 50, x')
         \<and> offset x' = 150"
    using t s by (simp add: d image_read_example)
  show ?thesis using w(1,2,4) 1 2 3 4 by blast
qed

subsection \<open>Chunked reads\<close>

lemma image_read_length_le: "int (length (image_read img p n)) \<le> max 0 n"
  by (simp add: image_read_def)

lemma image_read_empty_any:
  "0 < n \<Longrightarrow> image_read img p n = [] \<Longrightarrow> image_read img p m = []"
  by (auto simp: image_read_def)

lemma image_read_same_or_split:
  assumes "0 \<le> p" "0 < n" "n \<le> m"
  shows "image_read img p m = image_read img p n
       \<or> (int (length (image_read img p n)) = n \<and> n < m
           \<and> image_read img (p + n) (m - n) \<noteq> []
           \<and> image_read img p m = image_read img p n @ image_read img (p + n) (m - n))"
proof (cases "int (length img) - p \<le> n")
  case True
  then have "image_read img p m = image_read img p n"
    using assms by (simp add: image_read_def)
  then show ?thesis by simp
next
  case False
  then have len: "int (length (image_read img p n)) = n"
    using assms by (simp add: image_read_def)
  show ?thesis
  proof (cases "n = m")
    case True then show ?thesis by simp
  next
    case nm: False
    have "nat m = nat n + nat (m - n)" using assms by simp
    then have split: "image_read img p m = image_read img p n @ image_read img (p + n) (m - n)"
      using assms by (simp add: image_read_def take_add nat_add_distrib add.commute)
    have "image_read img (p + n) (m - n) \<noteq> []"
      using False assms nm by (simp add: image_read_def nat_add_distrib) 
    then show ?thesis using len split nm assms by simp
  qed
qed


lemma partial_bytes_length_le:
  "partial_bytes rs (image_read img) p len = Some d \<Longrightarrow> int (length d) \<le> max 0 len"
proof (cases "locate p 0 rs")
  case Nowhere
  then show "partial_bytes rs (image_read img) p len = Some d \<Longrightarrow> ?thesis"
    by (simp add: partial_bytes_def)
next
  case (Gap s)
  then show "partial_bytes rs (image_read img) p len = Some d \<Longrightarrow> ?thesis"
    by (auto simp: partial_bytes_def)
next
  case (Inside e)
  then show "partial_bytes rs (image_read img) p len = Some d \<Longrightarrow> ?thesis"
    using image_read_length_le[of img p "min len (e - p)"]
    by (auto simp: partial_bytes_def)
qed

lemma partial_bytes_empty_any:
  assumes "0 < a" "0 < b"
    and "partial_bytes rs (image_read img) p a = None \<or> partial_bytes rs (image_read img) p a = Some []"
  shows "partial_bytes rs (image_read img) p b = None \<or> partial_bytes rs (image_read img) p b = Some []"
proof (cases "locate p 0 rs")
  case Nowhere
  then show ?thesis by (simp add: partial_bytes_def)
next
  case (Gap s)
  then show ?thesis using assms locate_Gap_less[OF Gap]
    by (auto simp: partial_bytes_def zeros_def min_def split: if_splits)
next
  case (Inside e)
  have "0 < min a (e - p)" using assms locate_Inside_less[OF Inside] by simp
  then show ?thesis using assms Inside image_read_empty_any[of "min a (e - p)" img p "min b (e - p)"]
    by (auto simp: partial_bytes_def)
qed

lemma partial_bytes_same_or_split:
  assumes asc: "ascending 0 rs" and p: "0 \<le> p" "p < total_size rs" and a: "0 < a" and b: "0 \<le> b"
  shows "partial_bytes rs (image_read img) p (a + b) = partial_bytes rs (image_read img) p a
       \<or> (\<exists>da d'. partial_bytes rs (image_read img) p a = Some da \<and> int (length da) = a \<and> 0 < b
             \<and> p + a < total_size rs
             \<and> partial_bytes rs (image_read img) (p + a) b = Some d' \<and> d' \<noteq> []
             \<and> int (length d') \<le> b
             \<and> partial_bytes rs (image_read img) p (a + b) = Some (da @ d'))"
proof (cases "locate p 0 rs")
  case Nowhere
  then show ?thesis by (simp add: partial_bytes_def)
next
  case (Gap s)
  have ps: "p < s" "s \<le> total_size rs"
    using locate_Gap_less[OF Gap] locate_Gap_le_end[OF asc Gap] by (simp_all add: total_size_scan_end)
  show ?thesis
  proof (cases "s - p \<le> a")
    case True
    then show ?thesis using Gap b by (simp add: partial_bytes_def min_def)
  next
    case False
    show ?thesis
    proof (cases "b = 0")
      case True then show ?thesis by simp
    next
      case b0: False
      have loc: "locate (p + a) 0 rs = Gap s"
        using locate_stable_Gap[of 0 p "p + a" rs s] Gap p a False by simp
      have "zeros (min (a + b) (s - p)) = zeros a @ zeros (min b (s - (p + a)))"
        using a b False by (simp add: zeros_def replicate_add[symmetric] min_def nat_add_distrib[symmetric])
      moreover have "zeros (min b (s - (p + a))) \<noteq> []" using b b0 False by (simp add: zeros_def)
      moreover have "int (length (zeros (min b (s - (p + a))))) \<le> b" using b by simp
      ultimately show ?thesis
        using Gap loc a b b0 False ps by (simp add: partial_bytes_def)
    qed
  qed
next
  case (Inside e)
  have pe: "p < e" "e \<le> total_size rs"
    using locate_Inside_less[OF Inside] locate_Inside_le_end[OF asc Inside]
    by (simp_all add: total_size_scan_end)
  show ?thesis
  proof (cases "e - p \<le> a")
    case True
    then show ?thesis using Inside b by (simp add: partial_bytes_def min_def)
  next
    case False
    then have mina: "min a (e - p) = a" by simp
    have le: "a \<le> min (a + b) (e - p)" using False b by simp
    from image_read_same_or_split[OF p(1) a le, of img]
    show ?thesis
    proof
      assume "image_read img p (min (a + b) (e - p)) = image_read img p a"
      then show ?thesis using Inside mina by (simp add: partial_bytes_def)
    next
      assume s: "int (length (image_read img p a)) = a \<and> a < min (a + b) (e - p)
           \<and> image_read img (p + a) (min (a + b) (e - p) - a) \<noteq> []
           \<and> image_read img p (min (a + b) (e - p)) =
              image_read img p a @ image_read img (p + a) (min (a + b) (e - p) - a)"
      have loc: "locate (p + a) 0 rs = Inside e"
        using locate_stable_Inside[of 0 p "p + a" rs e] Inside p a False by simp
      have m: "min (a + b) (e - p) - a = min b (e - (p + a))" by (simp add: min_def)
      have b0: "0 < b" using s by simp
      have "int (length (image_read img (p + a) (min b (e - (p + a))))) \<le> b"
        using image_read_length_le[of img "p + a" "min b (e - (p + a))"] b by simp
      then show ?thesis
        using Inside loc s mina b0 False pe unfolding m by (simp add: partial_bytes_def)
    qed
  qed
qed


lemma read_bytes_empty_any:
  assumes "0 < a" "p < sz"
    and "partial_bytes rs (image_read img) p a = None \<or> partial_bytes rs (image_read img) p a = Some []"
  shows "read_bytes rs sz (image_read img) p b = []"
proof (cases "0 < b")
  case False
  then show ?thesis by (simp add: read_bytes_stop)
next
  case True
  from partial_bytes_empty_any[OF assms(1) True assms(3)]
  show ?thesis using True assms(2) by (auto simp: read_bytes_step)
qed

lemma read_bytes_split:
  "ascending 0 rs \<Longrightarrow> sz = total_size rs \<Longrightarrow> ans = image_read img \<Longrightarrow> 0 \<le> p \<Longrightarrow> 0 \<le> a \<Longrightarrow> 0 \<le> b \<Longrightarrow>
   read_bytes rs sz ans p (a + b) =
     read_bytes rs sz ans p a @ read_bytes rs sz ans (p + int (length (read_bytes rs sz ans p a))) b"
proof (induction rs sz ans p a rule: read_bytes.induct)
  case (1 rs sz ans p a)
  note asc = \<open>ascending 0 rs\<close> and sz = \<open>sz = total_size rs\<close> and ans = \<open>ans = image_read img\<close>
  show ?case
  proof (cases "a > 0 \<and> p < sz")
    case False
    then have "a = 0 \<or> sz \<le> p" using \<open>0 \<le> a\<close> by auto
    then show ?thesis
    proof
      assume "a = 0" then show ?thesis by (simp add: read_bytes_stop)
    next
      assume "sz \<le> p"
      then have "read_bytes rs sz ans q n = []" if "p \<le> q" for q n
        using that by (simp add: read_bytes_stop)
      then show ?thesis by simp
    qed
  next
    case True
    then have a: "0 < a" and psz: "p < sz" by simp_all
    have ab: "0 < a + b" using a \<open>0 \<le> b\<close> by simp
    from partial_bytes_same_or_split[OF asc \<open>0 \<le> p\<close> psz[unfolded sz] a \<open>0 \<le> b\<close>, of img]
    show ?thesis
    proof (elim disjE exE conjE)
      assume same: "partial_bytes rs (image_read img) p (a + b) = partial_bytes rs (image_read img) p a"
      show ?thesis
      proof (cases "partial_bytes rs ans p a = None \<or> partial_bytes rs ans p a = Some []")
        case stop: True
        have 1: "read_bytes rs sz ans p a = []"
          using stop a psz by (auto simp: read_bytes_step)
        have 2: "read_bytes rs sz ans p (a + b) = []"
          using stop same ab psz ans by (auto simp: read_bytes_step)
        have 3: "read_bytes rs sz ans p b = []"
          using read_bytes_empty_any[OF a psz, of rs img b] stop ans by simp
        show ?thesis by (simp add: 1 2 3)
      next
        case go: False
        then obtain d where d: "partial_bytes rs ans p a = Some d" "d \<noteq> []" by auto
        have dle: "int (length d) \<le> a"
          using partial_bytes_length_le[of rs img p a d] d ans a by simp
        have 1: "read_bytes rs sz ans p a =
            d @ read_bytes rs sz ans (p + int (length d)) (a - int (length d))"
          using d a psz by (simp add: read_bytes_step)
        have 2: "read_bytes rs sz ans p (a + b) =
            d @ read_bytes rs sz ans (p + int (length d)) ((a - int (length d)) + b)"
        proof -
          have e: "a + b - int (length d) = (a - int (length d)) + b" by simp
          have "read_bytes rs sz ans p (a + b) =
              d @ read_bytes rs sz ans (p + int (length d)) (a + b - int (length d))"
            using d same ab psz ans by (simp add: read_bytes_step)
          then show ?thesis unfolding e .
        qed
        have IH: "read_bytes rs sz ans (p + int (length d)) ((a - int (length d)) + b) =
            read_bytes rs sz ans (p + int (length d)) (a - int (length d)) @
            read_bytes rs sz ans (p + int (length d)
               + int (length (read_bytes rs sz ans (p + int (length d)) (a - int (length d))))) b"
          using "1.IH"[OF True d(1) d(2) asc sz ans] \<open>0 \<le> p\<close> dle \<open>0 \<le> b\<close> by simp
        show ?thesis unfolding 1 2 IH by (simp add: add.assoc)
      qed
    next
      fix da d'
      assume s: "partial_bytes rs (image_read img) p a = Some da" "int (length da) = a" "0 < b"
        "p + a < total_size rs" "partial_bytes rs (image_read img) (p + a) b = Some d'" "d' \<noteq> []"
        "int (length d') \<le> b"
        "partial_bytes rs (image_read img) p (a + b) = Some (da @ d')"
      have dane: "da \<noteq> []" using s(2) a by auto
      have 1: "read_bytes rs sz ans p a = da"
        using s(1,2) dane a psz ans by (simp add: read_bytes_step read_bytes_stop)
      have 2: "read_bytes rs sz ans p (a + b) =
          (da @ d') @ read_bytes rs sz ans (p + a + int (length d')) (b - int (length d'))"
      proof -
        have "p + int (length (da @ d')) = p + a + int (length d')"
          "a + b - int (length (da @ d')) = b - int (length d')"
          using s(2) by simp_all
        then show ?thesis using s(8) dane ab psz ans by (simp add: read_bytes_step add.assoc)
      qed
      have 3: "read_bytes rs sz ans (p + a) b =
          d' @ read_bytes rs sz ans (p + a + int (length d')) (b - int (length d'))"
        using s(3,4,5,6) sz ans by (simp add: read_bytes_step)
      show ?thesis unfolding 2 by (simp add: 1 s(2) 3)
    qed
  qed
qed


lemma sum_list_nonneg_int: "\<forall>c \<in> set cs. (0::int) \<le> c \<Longrightarrow> 0 \<le> sum_list cs"
  by (induction cs) auto

lemma Win_Read_chunks_bytes:
  "ascending 0 (runs h) \<Longrightarrow> win_size h = total_size (runs h) \<Longrightarrow> 0 \<le> offset h \<Longrightarrow>
   dev_answer (win_fd h) = image_read img \<Longrightarrow> \<forall>c \<in> set cs. 0 \<le> c \<Longrightarrow>
   fst (WindowsMemory_Read_chunks h cs) =
     read_bytes (runs h) (win_size h) (image_read img) (offset h) (sum_list cs)
   \<and> offset (snd (WindowsMemory_Read_chunks h cs)) =
     offset h + int (length (fst (WindowsMemory_Read_chunks h cs)))"
proof (induction cs arbitrary: h)
  case Nil
  then show ?case by (simp add: read_bytes_stop)
next
  case (Cons c cs)
  let ?h' = "snd (WindowsMemory_Read h c)"
  let ?d = "fst (WindowsMemory_Read h c)"
  have d: "?d = read_bytes (runs h) (win_size h) (image_read img) (offset h) c"
    using Win_Read_bytes(1)[of h c] Cons.prems by simp
  have inv: "ascending 0 (runs ?h')" "win_size ?h' = total_size (runs ?h')" "0 \<le> offset ?h'"
    "dev_answer (win_fd ?h') = image_read img" "\<forall>c \<in> set cs. 0 \<le> c"
    using Cons.prems by (simp_all add: Win_Read_bytes)
  note IH = Cons.IH[OF inv]
  have c0: "0 \<le> c" "0 \<le> sum_list cs" using Cons.prems sum_list_nonneg_int[of cs] by simp_all
  have unf: "WindowsMemory_Read_chunks h (c # cs) =
      (?d @ fst (WindowsMemory_Read_chunks ?h' cs), snd (WindowsMemory_Read_chunks ?h' cs))"
    by (simp add: case_prod_beta)
  have "read_bytes (runs h) (win_size h) (image_read img) (offset h) (c + sum_list cs) =
      ?d @ read_bytes (runs h) (win_size h) (image_read img) (offset h + int (length ?d)) (sum_list cs)"
    using read_bytes_split[of "runs h" "win_size h" "image_read img" img "offset h" c "sum_list cs"]
      Cons.prems c0 d by simp
  then show ?case using IH unfolding unf by (simp add: Win_Read_bytes)
qed

lemma Win_Read_chunks:
  assumes "ascending 0 (runs h)" "win_size h = total_size (runs h)" "0 \<le> offset h"
    "dev_answer (win_fd h) = image_read img" "\<forall>c \<in> set cs. 0 \<le> c"
  shows "fst (WindowsMemory_Read_chunks h cs) = fst (WindowsMemory_Read h (sum_list cs))
     \<and> offset (snd (WindowsMemory_Read_chunks h cs)) = offset (snd (WindowsMemory_Read h (sum_list cs)))"
  using Win_Read_chunks_bytes[OF assms] assms(4) by (simp add: Win_Read_bytes)

lemma OSX_Read_chunks_empty:
  "mmap x = [] \<Longrightarrow> \<forall>c \<in> set cs. 0 \<le> c \<Longrightarrow>
   OSXMemory_Read_chunks x cs = (if 0 < sum_list cs then Inl IndexError else Inr ([], x))"
proof (induction cs)
  case Nil
  then show ?case by simp
next
  case (Cons c cs)
  have "0 \<le> sum_list cs" using Cons.prems sum_list_nonneg_int[of cs] by simp
  then show ?case using Cons by (auto simp: OSX_Read_empty)
qed

lemma OSX_Read_chunks_bytes:
  "mmap x \<noteq> [] \<Longrightarrow> ascending 0 (mmap x) \<Longrightarrow> 0 \<le> offset x \<Longrightarrow>
   dev_answer (mem_dev x) = image_read img \<Longrightarrow> \<forall>c \<in> set cs. 0 \<le> c \<Longrightarrow>
   \<exists>x'. OSXMemory_Read_chunks x cs =
       Inr (read_bytes (mmap x) (total_size (mmap x)) (image_read img) (offset x) (sum_list cs), x')
     \<and> offset x' = offset x
         + int (length (read_bytes (mmap x) (total_size (mmap x)) (image_read img) (offset x) (sum_list cs)))"
proof (induction cs arbitrary: x)
  case Nil
  then show ?case by (simp add: read_bytes_stop)
next
  case (Cons c cs)
  let ?d = "read_bytes (mmap x) (total_size (mmap x)) (image_read img) (offset x) c"
  obtain x1 where x1: "OSXMemory_Read x c = Inr (?d, x1)" "offset x1 = offset x + int (length ?d)"
    "mmap x1 = mmap x" "dev_answer (mem_dev x1) = image_read img"
    using OSX_Read_bytes[OF Cons.prems(1), of c] Cons.prems(4) by auto
  have inv: "mmap x1 \<noteq> []" "ascending 0 (mmap x1)" "0 \<le> offset x1"
    "dev_answer (mem_dev x1) = image_read img" "\<forall>c \<in> set cs. 0 \<le> c"
    using Cons.prems x1 by simp_all
  from Cons.IH[OF inv] obtain x2 where x2:
    "OSXMemory_Read_chunks x1 cs =
       Inr (read_bytes (mmap x) (total_size (mmap x)) (image_read img) (offset x + int (length ?d)) (sum_list cs), x2)"
    "offset x2 = offset x + int (length ?d)
         + int (length (read_bytes (mmap x) (total_size (mmap x)) (image_read img)
             (offset x + int (length ?d)) (sum_list cs)))"
    using x1 by auto
  have c0: "0 \<le> c" "0 \<le> sum_list cs" using Cons.prems sum_list_nonneg_int[of cs] by simp_all
  have split: "read_bytes (mmap x) (total_size (mmap x)) (image_read img) (offset x) (c + sum_list cs) =
      ?d @ read_bytes (mmap x) (total_size (mmap x)) (image_read img) (offset x + int (length ?d)) (sum_list cs)"
    using read_bytes_split[of "mmap x" "total_size (mmap x)" "image_read img" img "offset x" c "sum_list cs"]
      Cons.prems c0 by simp
  show ?case using x1(1) x2 by (intro exI[of _ x2]) (simp add: split)
qed

lemma OSX_Read_chunks:
  assumes "ascending 0 (mmap x)" "0 \<le> offset x"
    "dev_answer (mem_dev x) = image_read img" "\<forall>c \<in> set cs. 0 \<le> c"
  shows "(\<exists>e. OSXMemory_Read_chunks x cs = Inl e \<and> OSXMemory_Read x (sum_list cs) = Inl e)
       \<or> (\<exists>data x1 x2. OSXMemory_Read_chunks x cs = Inr (data, x1)
             \<and> OSXMemory_Read x (sum_list cs) = Inr (data, x2) \<and> offset x1 = offset x2)"
proof (cases "mmap x = []")
  case True
  then show ?thesis using OSX_Read_chunks_empty[OF True assms(4)] by (simp add: OSX_Read_empty)
next
  case False
  from OSX_Read_chunks_bytes[OF False assms] OSX_Read_bytes[OF False, of "sum_list cs"] assms(3)
  show ?thesis by auto
qed


text \<open>
  Claim C7. Over a device that is a static image of memory, for every region map (its runs
  ascending and not overlapping, the Windows \<^verbatim>\<open>size\<close> attribute being the end of the last
  run), every starting cursor \<open>\<ge> 0\<close> and every list of chunk sizes \<open>\<ge> 0\<close>, reading the
  chunks one after the other returns, concatenated, the bytes of one read of their sum
  from the same cursor, and leaves the cursor at the same place. On OSX the two do the same
  on every map: over the empty map both raise \<^verbatim>\<open>IndexError\<close> as soon as a positive length
  is asked.
\<close>

theorem chunked_reads_equal_one_read:
  "(ascending 0 (runs h) \<and> win_size h = total_size (runs h) \<and> 0 \<le> offset h
      \<and> dev_answer (win_fd h) = image_read img \<and> (\<forall>c \<in> set cs. 0 \<le> c) \<longrightarrow>
      fst (WindowsMemory_Read_chunks h cs) = fst (WindowsMemory_Read h (sum_list cs))
      \<and> offset (snd (WindowsMemory_Read_chunks h cs)) =
          offset (snd (WindowsMemory_Read h (sum_list cs))))
 \<and> (ascending 0 (mmap x) \<and> 0 \<le> offset x
      \<and> dev_answer (mem_dev x) = image_read img \<and> (\<forall>c \<in> set cs. 0 \<le> c) \<longrightarrow>
      (\<exists>e. OSXMemory_Read_chunks x cs = Inl e \<and> OSXMemory_Read x (sum_list cs) = Inl e)
      \<or> (\<exists>data x1 x2. OSXMemory_Read_chunks x cs = Inr (data, x1)
            \<and> OSXMemory_Read x (sum_list cs) = Inr (data, x2) \<and> offset x1 = offset x2))"
  using Win_Read_chunks[of h img cs] OSX_Read_chunks[of x img cs] by blast

text \<open>The theorem at the example map: chunks of 30, 0, 50 and 20 bytes from cursor 50
  against one read of 100 bytes.\<close>

theorem chunked_reads_equal_one_read_witness:
  "ascending 0 (runs (win_example 50)) \<and> win_size (win_example 50) = total_size (runs (win_example 50))
   \<and> dev_answer (win_fd (win_example 50)) = image_read example_image
   \<and> fst (WindowsMemory_Read_chunks (win_example 50) [30, 0, 50, 20])
       = fst (WindowsMemory_Read (win_example 50) 100)
   \<and> fst (WindowsMemory_Read_chunks (win_example 50) [30, 0, 50, 20])
       = replicate 50 (CHR ''M'') @ zeros 50
   \<and> (\<exists>data x1 x2. OSXMemory_Read_chunks (osx_example 50) [30, 0, 50, 20] = Inr (data, x1)
         \<and> OSXMemory_Read (osx_example 50) 100 = Inr (data, x2) \<and> offset x1 = offset x2)"
proof -
  have w: "ascending 0 (runs (win_example 50))"
    "win_size (win_example 50) = total_size (runs (win_example 50))"
    "0 \<le> offset (win_example 50)" "dev_answer (win_fd (win_example 50)) = image_read example_image"
    by (simp_all add: example_defs total_size_def)
  have x: "ascending 0 (mmap (osx_example 50))" "0 \<le> offset (osx_example 50)"
    "dev_answer (mem_dev (osx_example 50)) = image_read example_image"
    "mmap (osx_example 50) \<noteq> []"
    by (simp_all add: example_defs)
  have c: "\<forall>c \<in> set [30, 0, 50, 20::int]. 0 \<le> c" "sum_list [30, 0, 50, 20::int] = 100"
    by simp_all
  note t = chunked_reads_equal_one_read[of "win_example 50" example_image "[30, 0, 50, 20]"
      "osx_example 50"]
  have 1: "fst (WindowsMemory_Read_chunks (win_example 50) [30, 0, 50, 20])
       = fst (WindowsMemory_Read (win_example 50) 100)"
    using t w c(1) unfolding c(2) by blast
  have 2: "fst (WindowsMemory_Read (win_example 50) 100) = replicate 50 (CHR ''M'') @ zeros 50"
    using Win_Read_scenario[of "win_example 50"]
    by (simp add: example_defs image_read_def)
  obtain data x2 where r: "OSXMemory_Read (osx_example 50) 100 = Inr (data, x2)"
    using OSX_Read_bytes[OF x(4), of 100] by blast
  have 3: "\<exists>data x1 x2. OSXMemory_Read_chunks (osx_example 50) [30, 0, 50, 20] = Inr (data, x1)
         \<and> OSXMemory_Read (osx_example 50) 100 = Inr (data, x2) \<and> offset x1 = offset x2"
    using t x(1-3) c(1) r unfolding c(2) by auto
  show ?thesis using w(1,2,4) 1 2 3 by simp
qed

subsection \<open>Decoding the driver buffers\<close>

lemma unpack_from_inside:
  "0 \<le> off \<Longrightarrow> off + int n \<le> int (length buffer) \<Longrightarrow>
   unpack_from n buffer off = Inr (take n (drop (nat off) buffer))"
  by (simp add: unpack_from_def)

lemma field_of_slice:
  "b + k \<le> n \<Longrightarrow> field (take n (drop a bs)) b k = field bs (a + b) k"
  by (simp add: field_def take_drop min_def add.commute)

lemma unpack_QQ_entry:
  "36 + 16 * x \<le> length data \<Longrightarrow> unpack_QQ data (int x * 16 + 20) = Inr (run_entry data x)"
proof -
  assume a: "36 + 16 * x \<le> length data"
  have n: "nat (int x * 16 + 20) = 20 + 16 * x" by (simp add: nat_add_distrib nat_mult_distrib)
  have "unpack_from 16 data (int x * 16 + 20) = Inr (take 16 (drop (20 + 16 * x) data))"
    using a unpack_from_inside[of "int x * 16 + 20" 16 data] n by simp
  then show ?thesis
    by (simp add: unpack_QQ_def run_entry_def field_of_slice)
qed

lemma runs_loop_takeWhile:
  "entries_present data xs \<Longrightarrow>
   WindowsMemory_runs_loop data xs (rs, sz) =
     Inr (rs @ takeWhile (\<lambda>(start, len). len \<noteq> 0) (map (run_entry data) xs),
          scan_end sz (takeWhile (\<lambda>(start, len). len \<noteq> 0) (map (run_entry data) xs)))"
proof (induction xs arbitrary: rs sz)
  case Nil
  then show ?case by simp
next
  case (Cons x xs)
  obtain s l where e: "run_entry data x = (s, l)" by (cases "run_entry data x")
  have u: "unpack_QQ data (int x * 16 + 20) = Inr (s, l)"
    using Cons.prems unpack_QQ_entry[of x data] e by simp
  show ?case
  proof (cases "l = 0")
    case True
    then show ?thesis using u e by simp
  next
    case False
    then have "entries_present data xs" using Cons.prems e by simp
    from Cons.IH[OF this, of "rs @ [(s, l)]" "s + l"] show ?thesis
      using u e False by simp
  qed
qed

lemma scan_end_total_size: "scan_end 0 rs = total_size rs"
  by (simp add: total_size_scan_end)

lemma WindowsMemory_decode_runs:
  assumes "20 \<le> length data" "entries_present data [0..<nat (declared_runs data)]"
  shows "WindowsMemory_decode data =
     Inr (field data 0 8,
          takeWhile (\<lambda>(start, len). len \<noteq> 0)
            (map (run_entry data) [0..<nat (declared_runs data)]),
          total_size (takeWhile (\<lambda>(start, len). len \<noteq> 0)
            (map (run_entry data) [0..<nat (declared_runs data)])))"
proof -
  have h: "unpack_QQl data = Inr (field data 0 8, field data 8 8, declared_runs data)"
    using assms(1) unpack_from_inside[of 0 20 data]
    by (simp add: unpack_QQl_def declared_runs_def field_of_slice[of _ _ 20 0, simplified])
  show ?thesis
    using runs_loop_takeWhile[OF assms(2), of "[]" 0]
    by (simp add: WindowsMemory_decode_def h scan_end_total_size)
qed

lemma entries_present_all:
  "\<forall>x \<in> set xs. 36 + 16 * x \<le> length data \<Longrightarrow> entries_present data xs"
  by (induction xs) auto


text \<open>
  Claim C6. For a driver buffer that holds its 20-byte header and every entry the loop
  reaches, with declared run count \<open>n\<close>, decoding keeps the longest prefix of the first \<open>n\<close>
  entries without a zero-length entry, in the order of the buffer (the loop stops at the
  first zero-length entry or after \<open>n\<close> entries), and the size is the end of the last run
  kept (0 when none is kept).
\<close>

theorem windows_runs_decoded:
  "20 \<le> length data \<and> entries_present data [0..<nat (declared_runs data)] \<longrightarrow>
   WindowsMemory_decode data =
     Inr (field data 0 8,
          takeWhile (\<lambda>(start, len). len \<noteq> 0)
            (map (run_entry data) [0..<nat (declared_runs data)]),
          total_size (takeWhile (\<lambda>(start, len). len \<noteq> 0)
            (map (run_entry data) [0..<nat (declared_runs data)])))"
  using WindowsMemory_decode_runs[of data] by blast

lemma example_buffer_entries:
  "length example_buffer = 68" "declared_runs example_buffer = 3"
  "run_entry example_buffer 0 = (0, 100)" "run_entry example_buffer (Suc 0) = (200, 50)"
  "run_entry example_buffer 2 = (300, 0)"
  by (simp_all add: example_buffer_def declared_runs_def run_entry_def field_def le_uint_def
      to_signed32_def)

lemma example_buffer_short_entries:
  "length (example_buffer[16 := CHR 0x01]) = 68" "declared_runs (example_buffer[16 := CHR 0x01]) = 1"
  "run_entry (example_buffer[16 := CHR 0x01]) 0 = (0, 100)"
  by (simp_all add: example_buffer_def declared_runs_def run_entry_def field_def le_uint_def
      to_signed32_def)

text \<open>The theorem at the example buffer, where the third entry ends the list, and at the
  same buffer with a declared count of 1, where the count does.\<close>

theorem windows_runs_decoded_witness:
  "20 \<le> length example_buffer
   \<and> entries_present example_buffer [0..<nat (declared_runs example_buffer)]
   \<and> WindowsMemory_decode example_buffer = Inr (1601536, [(0, 100), (200, 50)], 250)
   \<and> entries_present (example_buffer[16 := CHR 0x01])
        [0..<nat (declared_runs (example_buffer[16 := CHR 0x01]))]
   \<and> WindowsMemory_decode (example_buffer[16 := CHR 0x01]) = Inr (1601536, [(0, 100)], 100)"
proof -
  have u: "[0..<3] = [0, 1, 2]" "[0..<1] = [0]" by (simp_all add: upt_rec)
  have c: "field example_buffer 0 8 = 1601536" "field (example_buffer[16 := CHR 0x01]) 0 8 = 1601536"
    by (simp_all add: example_buffer_def field_def le_uint_def)
  have p: "20 \<le> length example_buffer"
    "entries_present example_buffer [0..<nat (declared_runs example_buffer)]"
    by (simp_all add: example_buffer_entries u)
  have q: "20 \<le> length (example_buffer[16 := CHR 0x01])"
    "entries_present (example_buffer[16 := CHR 0x01])
        [0..<nat (declared_runs (example_buffer[16 := CHR 0x01]))]"
    by (simp_all add: example_buffer_short_entries u del: length_list_update)
  have 1: "WindowsMemory_decode example_buffer = Inr (1601536, [(0, 100), (200, 50)], 250)"
    using windows_runs_decoded[of example_buffer] p
    by (simp add: example_buffer_entries u c total_size_def)
  have 2: "WindowsMemory_decode (example_buffer[16 := CHR 0x01]) = Inr (1601536, [(0, 100)], 100)"
    using windows_runs_decoded[of "example_buffer[16 := CHR 0x01]"] q
    by (simp add: example_buffer_short_entries u c total_size_def del: length_list_update)
  show ?thesis using p q 1 2 by simp
qed

subsection \<open>Decoding the EFI memory map\<close>

lemma unpack_IIQQQQ_descriptor:
  assumes "0 \<le> desc_size" "int x * desc_size + 40 \<le> int (length buffer)"
  shows "unpack_IIQQQQ buffer (int x * desc_size) =
     Inr (desc_type buffer desc_size x, field buffer (nat (int x * desc_size) + 4) 4,
          desc_start buffer desc_size x, field buffer (nat (int x * desc_size) + 16) 8,
          desc_pages buffer desc_size x, field buffer (nat (int x * desc_size) + 32) 8)"
proof -
  have "0 \<le> int x * desc_size" using assms(1) by simp
  then have "unpack_from 40 buffer (int x * desc_size) =
      Inr (take 40 (drop (nat (int x * desc_size)) buffer))"
    using assms(2) unpack_from_inside[of "int x * desc_size" 40 buffer] by simp
  then show ?thesis
    by (simp add: unpack_IIQQQQ_def desc_type_def desc_start_def desc_pages_def field_of_slice
        field_of_slice[of 0 4 40, simplified])
qed

lemma Parse_loop_filter:
  assumes "0 \<le> desc_size" "\<forall>x \<in> set xs. int x * desc_size + 40 \<le> int (length buffer)"
  shows "OSXMemory_ParseBinaryMemoryMap_loop buffer desc_size xs result =
     Inr (result @
          map (\<lambda>x. (desc_start buffer desc_size x, desc_pages buffer desc_size x * 4096))
            (filter (\<lambda>x. desc_type buffer desc_size x \<in> {1, 2, 3, 4, 5, 6, 7, 9, 10, 13, 14}) xs))"
  using assms(2)
proof (induction xs arbitrary: result)
  case Nil
  then show ?case by simp
next
  case (Cons x xs)
  have u: "unpack_IIQQQQ buffer (int x * desc_size) =
     Inr (desc_type buffer desc_size x, field buffer (nat (int x * desc_size) + 4) 4,
          desc_start buffer desc_size x, field buffer (nat (int x * desc_size) + 16) 8,
          desc_pages buffer desc_size x, field buffer (nat (int x * desc_size) + 32) 8)"
    using unpack_IIQQQQ_descriptor[OF assms(1), of x buffer] Cons.prems by simp
  have v: "set valid_memory_types = {1, 2, 3, 4, 5, 6, 7, 9, 10, 13, 14}"
    by (simp add: valid_memory_types_def)
  have rest: "\<forall>x \<in> set xs. int x * desc_size + 40 \<le> int (length buffer)"
    using Cons.prems by simp
  show ?case
    using Cons.IH[OF rest] u unfolding OSXMemory_ParseBinaryMemoryMap_loop.simps u v
    by (simp add: page_size_def)
qed

lemma descriptors_fit:
  assumes "40 \<le> desc_size" "sz \<le> int (length buffer)" "x < nat (sz div desc_size)"
  shows "int x * desc_size + 40 \<le> int (length buffer)"
proof -
  have "int x + 1 \<le> sz div desc_size" using assms(3) by linarith
  then have "(int x + 1) * desc_size \<le> (sz div desc_size) * desc_size"
    using assms(1) by (intro mult_right_mono) simp_all
  also have "\<dots> \<le> sz"
  proof -
    have "sz = (sz div desc_size) * desc_size + sz mod desc_size" by simp
    moreover have "0 \<le> sz mod desc_size" using assms(1) by simp
    ultimately show ?thesis by linarith
  qed
  finally have "int x * desc_size + desc_size \<le> sz" by (simp add: algebra_simps)
  then show ?thesis using assms(1,2) by linarith
qed


lemma Parse_filter:
  assumes "40 \<le> desc_size" "sz \<le> int (length buffer)"
  shows "OSXMemory_ParseBinaryMemoryMap buffer sz desc_size =
     Inr (map (\<lambda>x. (desc_start buffer desc_size x, desc_pages buffer desc_size x * 4096))
            (filter (\<lambda>x. desc_type buffer desc_size x \<in> {1, 2, 3, 4, 5, 6, 7, 9, 10, 13, 14})
               [0..<nat (sz div desc_size)]))"
proof -
  have "\<forall>x \<in> set [0..<nat (sz div desc_size)]. int x * desc_size + 40 \<le> int (length buffer)"
    using descriptors_fit[OF assms] by simp
  from Parse_loop_filter[OF _ this, of "[]"] assms(1) show ?thesis
    by (simp add: OSXMemory_ParseBinaryMemoryMap_def)
qed

text \<open>
  Claim C5, amended. For a memory map that holds \<open>size\<close> bytes, with descriptors of at
  least 40 bytes, a descriptor becomes a run if and only if its type is one of
  1, 2, 3, 4, 5, 6, 7, 9, 10, 13 and 14: the usable classes the claim lists and, beyond
  them, type 14 (\<^verbatim>\<open># Max Memory Type\<close> in \<^verbatim>\<open>valid_memory_types\<close>). Every surviving
  descriptor yields the run \<open>(start, page_count * 4096)\<close>, in descriptor order, and every
  other type is dropped.
\<close>

theorem efi_descriptors_filtered:
  "40 \<le> desc_size \<and> sz \<le> int (length buffer) \<longrightarrow>
   OSXMemory_ParseBinaryMemoryMap buffer sz desc_size =
     Inr (map (\<lambda>x. (desc_start buffer desc_size x, desc_pages buffer desc_size x * 4096))
            (filter (\<lambda>x. desc_type buffer desc_size x \<in> {1, 2, 3, 4, 5, 6, 7, 9, 10, 13, 14})
               [0..<nat (sz div desc_size)]))"
  using Parse_filter[of desc_size sz buffer] by blast

lemma example_efi_map_fields:
  "length example_efi_map = 120"
  "desc_type example_efi_map 40 0 = 7" "desc_start example_efi_map 40 0 = 0"
  "desc_pages example_efi_map 40 0 = 16"
  "desc_type example_efi_map 40 (Suc 0) = 0"
  "desc_type example_efi_map 40 2 = 14" "desc_start example_efi_map 40 2 = 131072"
  "desc_pages example_efi_map 40 2 = 2"
  by (simp_all add: example_efi_map_def desc_type_def desc_start_def desc_pages_def field_def
      le_uint_def)

text \<open>The theorem at the first two descriptors of the example map: the descriptor of type
  7 gives a run of 16 pages, the descriptor of type 0 is dropped.\<close>

theorem efi_descriptors_filtered_witness:
  "(40::int) \<le> 40 \<and> 80 \<le> int (length example_efi_map)
   \<and> OSXMemory_ParseBinaryMemoryMap example_efi_map 80 40 = Inr [(0, 65536)]"
proof -
  have u: "[0..<2] = [0, Suc 0]" by (simp add: upt_rec)
  have h: "(40::int) \<le> 40" "80 \<le> int (length example_efi_map)"
    by (simp_all add: example_efi_map_fields)
  show ?thesis
    using efi_descriptors_filtered[of 40 80 example_efi_map] h
    by (simp add: example_efi_map_fields u)
qed

text \<open>
  The claim as stated fails at the third descriptor of the example map: its type 14 is none
  of the classes the claim lists, and it becomes the run \<open>(0x20000, 2 * 4096)\<close>.
\<close>

theorem efi_descriptors_filtered_counterexample:
  "desc_type example_efi_map 40 2 = 14 \<and> 14 \<notin> set spec_usable_types
   \<and> OSXMemory_ParseBinaryMemoryMap example_efi_map 120 40 = Inr [(0, 65536), (131072, 8192)]"
proof -
  have u: "[0..<3] = [0, Suc 0, 2]" by (simp add: upt_rec)
  have "OSXMemory_ParseBinaryMemoryMap example_efi_map 120 40 = Inr [(0, 65536), (131072, 8192)]"
    using Parse_filter[of 40 120 example_efi_map]
    by (simp add: example_efi_map_fields u)
  then show ?thesis by (simp add: example_efi_map_fields spec_usable_types_def)
qed

subsection \<open>Opening over a base handle\<close>

lemma Linux_init_base: 
  "LinuxMemory_init cls base_fd p open_file = LinuxMemory_init cls PyNone p open_file"
  by (simp add: LinuxMemory_init_def MemoryVFS_init_def)

lemma Windows_init_base:
  "WindowsMemory_init cls base_fd p create_file device_io_control =
   WindowsMemory_init cls PyNone p create_file device_io_control"
  by (simp add: WindowsMemory_init_def MemoryVFS_init_def)

lemma OSX_init_base:
  "OSXMemory_init cls base_fd p open_device dimensions binary_map =
   OSXMemory_init cls PyNone p open_device dimensions binary_map"
  by (simp add: OSXMemory_init_def MemoryVFS_init_def)

lemma Windows_init_size:
  assumes "WindowsMemory_init cls base_fd p create_file device_io_control = Inr h"
    and "\<And>d data. device_io_control d = Inr data \<Longrightarrow>
           20 \<le> length data \<and> entries_present data [0..<nat (declared_runs data)]"
  shows "win_size h = total_size (runs h) \<and> offset h = vfs_offset cls"
  using assms(1) WindowsMemory_decode_runs assms(2)
  by (fastforce simp: WindowsMemory_init_def MemoryVFS_init_def MemoryVFS.extend_def
      split: sum.splits prod.splits)

text \<open>
  Claim C9: opening a memory handler over a non-null base handle raises the top-level
  error, and only then. The code does not do this. Each \<^verbatim>\<open>__init__\<close> passes \<^verbatim>\<open>base_fd\<close> to
  \<^verbatim>\<open>MemoryVFS.__init__\<close>, which discards it, and then tests \<^verbatim>\<open>self.base_fd\<close>, which the
  argument never reaches: opening over a handle does exactly what opening over \<^verbatim>\<open>None\<close>
  does, so for no value of the inherited attribute is the error raised for the non-null
  base handles and only for them.
\<close>

theorem open_ignores_base_handle:
  "LinuxMemory_init cls (Handler b) p open_file = LinuxMemory_init cls PyNone p open_file
   \<and> WindowsMemory_init cls (Handler b) p create_file device_io_control =
       WindowsMemory_init cls PyNone p create_file device_io_control
   \<and> OSXMemory_init cls (Handler b) p open_device dimensions binary_map =
       OSXMemory_init cls PyNone p open_device dimensions binary_map
   \<and> \<not> (\<forall>base_fd. (LinuxMemory_init cls base_fd p open_file = Inl top_level_error)
                    = (base_fd \<noteq> PyNone))
   \<and> \<not> (\<forall>base_fd. (WindowsMemory_init cls base_fd p create_file device_io_control
                      = Inl top_level_error) = (base_fd \<noteq> PyNone))
   \<and> \<not> (\<forall>base_fd. (OSXMemory_init cls base_fd p open_device dimensions binary_map
                      = Inl top_level_error) = (base_fd \<noteq> PyNone))
   \<and> LinuxMemory_init \<lparr>vfs_base_fd = Some PyNone, vfs_offset = 0\<rparr> (Handler ''ntfs'') ''mem''
        (\<lambda>path. Inr \<lparr>file_data = ''0123456789'', file_pos = 0,
                         file_limit = 9223372036854775807, alloc_limit = 1073741824\<rparr>)
       = Inr \<lparr>pathspec = ''mem'', offset = 0,
              linux_fd = \<lparr>file_data = ''0123456789'', file_pos = 0,
                          file_limit = 9223372036854775807, alloc_limit = 1073741824\<rparr>,
              linux_size = 10\<rparr>"
proof -
  have l: "\<not> (\<forall>base_fd. (LinuxMemory_init cls base_fd p open_file = Inl top_level_error)
                    = (base_fd \<noteq> PyNone))"
  proof
    assume a: "\<forall>base_fd. (LinuxMemory_init cls base_fd p open_file = Inl top_level_error)
                    = (base_fd \<noteq> PyNone)"
    from a[rule_format, of PyNone] a[rule_format, of "Handler b"]
      Linux_init_base[of cls "Handler b" p open_file]
    show False by simp
  qed
  have w: "\<not> (\<forall>base_fd. (WindowsMemory_init cls base_fd p create_file device_io_control
                      = Inl top_level_error) = (base_fd \<noteq> PyNone))"
  proof
    assume a: "\<forall>base_fd. (WindowsMemory_init cls base_fd p create_file device_io_control
                      = Inl top_level_error) = (base_fd \<noteq> PyNone)"
    from a[rule_format, of PyNone] a[rule_format, of "Handler b"]
      Windows_init_base[of cls "Handler b" p create_file device_io_control]
    show False by simp
  qed
  have x: "\<not> (\<forall>base_fd. (OSXMemory_init cls base_fd p open_device dimensions binary_map
                      = Inl top_level_error) = (base_fd \<noteq> PyNone))"
  proof
    assume a: "\<forall>base_fd. (OSXMemory_init cls base_fd p open_device dimensions binary_map
                      = Inl top_level_error) = (base_fd \<noteq> PyNone)"
    from a[rule_format, of PyNone] a[rule_format, of "Handler b"]
      OSX_init_base[of cls "Handler b" p open_device dimensions binary_map]
    show False by simp
  qed
  have e: "LinuxMemory_init \<lparr>vfs_base_fd = Some PyNone, vfs_offset = 0\<rparr> (Handler ''ntfs'') ''mem''
        (\<lambda>path. Inr \<lparr>file_data = ''0123456789'', file_pos = 0,
                         file_limit = 9223372036854775807, alloc_limit = 1073741824\<rparr>)
       = Inr \<lparr>pathspec = ''mem'', offset = 0,
              linux_fd = \<lparr>file_data = ''0123456789'', file_pos = 0,
                          file_limit = 9223372036854775807, alloc_limit = 1073741824\<rparr>,
              linux_size = 10\<rparr>"
    by (simp add: LinuxMemory_init_def MemoryVFS_init_def check_top_level_def file_seek_def
        file_tell_def fits_int32_def fits_int64_def MemoryVFS.extend_def MemoryVFS.defs
        LinuxMemory.defs)
  show ?thesis
    using Linux_init_base[of cls "Handler b" p open_file]
      Windows_init_base[of cls "Handler b" p create_file device_io_control]
      OSX_init_base[of cls "Handler b" p open_device dimensions binary_map] l w x e
    by blast
qed

subsection \<open>Seeking past the end\<close>

lemma Linux_init_size:
  "LinuxMemory_init cls base_fd p open_file = Inr h \<Longrightarrow>
   linux_size h = int (length (file_data (linux_fd h))) \<and> file_pos (linux_fd h) = 0"
  by (auto simp: LinuxMemory_init_def MemoryVFS_init_def file_seek_def file_tell_def
      MemoryVFS.extend_def Let_def split: sum.splits if_splits)

lemma Linux_Seek_Tell:
  assumes "0 \<le> x" "x < 9223372036854775808" "x \<le> file_limit (linux_fd h)"
  shows "\<exists>h'. LinuxMemory_Seek h x 0 = Inr h' \<and> LinuxMemory_Tell h' = x
           \<and> linux_size h' = linux_size h
           \<and> file_data (linux_fd h') = file_data (linux_fd h)
           \<and> alloc_limit (linux_fd h') = alloc_limit (linux_fd h)"
  using assms
  by (simp add: LinuxMemory_Seek_def LinuxMemory_Tell_def file_seek_def file_tell_def
      fits_int32_def fits_int64_def)

lemma Linux_Read_past_end:
  assumes "int (length (file_data (linux_fd h))) \<le> LinuxMemory_Tell h"
    "- 9223372036854775808 \<le> n" "n < 9223372036854775808" "n \<le> alloc_limit (linux_fd h)"
  shows "LinuxMemory_Read h n = Inr ([], h)"
  using assms
  by (simp add: LinuxMemory_Read_def LinuxMemory_Tell_def file_tell_def file_read_def
      fits_int64_def)

lemma Linux_Seek_Tell_Read:
  assumes "0 \<le> x" "x < 9223372036854775808" "x \<le> file_limit (linux_fd h)"
  shows "\<exists>h'. LinuxMemory_Seek h x 0 = Inr h' \<and> LinuxMemory_Tell h' = x
         \<and> (linux_size h = int (length (file_data (linux_fd h))) \<and> linux_size h \<le> x
              \<and> - 9223372036854775808 \<le> n \<and> n < 9223372036854775808
              \<and> n \<le> alloc_limit (linux_fd h) \<longrightarrow>
              LinuxMemory_Read h' n = Inr ([], h'))"
proof -
  obtain h' where h': "LinuxMemory_Seek h x 0 = Inr h'" "LinuxMemory_Tell h' = x"
    "file_data (linux_fd h') = file_data (linux_fd h)"
    "alloc_limit (linux_fd h') = alloc_limit (linux_fd h)"
    using Linux_Seek_Tell[OF assms] by blast
  have "linux_size h = int (length (file_data (linux_fd h))) \<and> linux_size h \<le> x
              \<and> - 9223372036854775808 \<le> n \<and> n < 9223372036854775808
              \<and> n \<le> alloc_limit (linux_fd h) \<longrightarrow>
              LinuxMemory_Read h' n = Inr ([], h')"
    using Linux_Read_past_end[of h' n] h' by simp
  then show ?thesis using h' by blast
qed

lemma Seek_Tell: "VFSHandler_Tell (VFSHandler_Seek h total_sz x Absolute) = x"
  by (simp add: VFSHandler_Tell_def VFSHandler_Seek_def)

lemma Win_Seek_Read_past_end:
  "win_size w \<le> x \<Longrightarrow>
   WindowsMemory_Read (VFSHandler_Seek w (win_size w) x Absolute) n =
     ([], VFSHandler_Seek w (win_size w) x Absolute)"
  by (rule Win_Read_stop) (simp add: VFSHandler_Seek_def)

lemma OSX_Seek_Read_past_end:
  "mmap m \<noteq> [] \<Longrightarrow> total_size (mmap m) \<le> x \<Longrightarrow>
   OSXMemory_Read (VFSHandler_Seek m (total_size (mmap m)) x Absolute) n =
     Inr ([], VFSHandler_Seek m (total_size (mmap m)) x Absolute)"
  by (rule OSX_Read_past_end) (simp_all add: VFSHandler_Seek_def)

text \<open>
  Claim C8, amended. On \<^verbatim>\<open>LinuxMemory\<close>, for every offset \<open>x\<close> that the file object
  accepts (\<open>0 \<le> x < 2^63\<close>, and not beyond the largest offset of the file system or
  device), whatever the size of the file, \<^verbatim>\<open>Seek(x)\<close> succeeds and \<^verbatim>\<open>Tell()\<close> then returns
  \<open>x\<close>; when \<open>x\<close> is at or past the size (the length of the file, as \<^verbatim>\<open>__init__\<close> sets
  it), a read of a length the interpreter can convert and allocate returns no byte and
  leaves the position at \<open>x\<close>. On \<^verbatim>\<open>WindowsMemory\<close> and \<^verbatim>\<open>OSXMemory\<close>, with the inherited
  \<^verbatim>\<open>Seek\<close> and \<^verbatim>\<open>Tell\<close> as the specification describes them, \<^verbatim>\<open>Seek(x)\<close> then \<^verbatim>\<open>Tell()\<close>
  returns \<open>x\<close> for every \<open>x\<close>, and after seeking at or past the total size
  \<^verbatim>\<open>Read\<close> returns no byte and leaves the handle as it is: on Windows for every handle, on
  OSX for every handle with a non-empty memory map.
\<close>

theorem seek_tell_and_read_past_end:
  "(0 \<le> x \<and> x < 9223372036854775808 \<and> x \<le> file_limit (linux_fd h) \<longrightarrow>
      (\<exists>h'. LinuxMemory_Seek h x 0 = Inr h' \<and> LinuxMemory_Tell h' = x
         \<and> (linux_size h = int (length (file_data (linux_fd h))) \<and> linux_size h \<le> x
              \<and> - 9223372036854775808 \<le> n \<and> n < 9223372036854775808
              \<and> n \<le> alloc_limit (linux_fd h) \<longrightarrow>
              LinuxMemory_Read h' n = Inr ([], h'))))
 \<and> VFSHandler_Tell (VFSHandler_Seek w (win_size w) x Absolute) = x
 \<and> (win_size w \<le> x \<longrightarrow>
      WindowsMemory_Read (VFSHandler_Seek w (win_size w) x Absolute) n =
        ([], VFSHandler_Seek w (win_size w) x Absolute))
 \<and> VFSHandler_Tell (VFSHandler_Seek m (total_size (mmap m)) x Absolute) = x
 \<and> (mmap m \<noteq> [] \<and> total_size (mmap m) \<le> x \<longrightarrow>
      OSXMemory_Read (VFSHandler_Seek m (total_size (mmap m)) x Absolute) n =
        Inr ([], VFSHandler_Seek m (total_size (mmap m)) x Absolute))"
  using Linux_Seek_Tell_Read[of x h n] Seek_Tell[of w "win_size w" x]
    Win_Seek_Read_past_end[of w x n] Seek_Tell[of m "total_size (mmap m)" x]
    OSX_Seek_Read_past_end[of m x n]
  by blast

text \<open>The theorem at the handle of a 10-byte file, seeking to 25, and at the example map,
  seeking from cursor 0 to 300.\<close>

theorem seek_tell_and_read_past_end_witness:
  "linux_size linux_example = int (length (file_data (linux_fd linux_example)))
   \<and> 25 \<le> file_limit (linux_fd linux_example) \<and> 5 \<le> alloc_limit (linux_fd linux_example)
   \<and> (\<exists>h'. LinuxMemory_Seek linux_example 25 0 = Inr h' \<and> LinuxMemory_Tell h' = 25
         \<and> LinuxMemory_Read h' 5 = Inr ([], h'))
   \<and> win_size (win_example 0) \<le> 300
   \<and> WindowsMemory_Read (VFSHandler_Seek (win_example 0) (win_size (win_example 0)) 300 Absolute) 5
       = ([], VFSHandler_Seek (win_example 0) (win_size (win_example 0)) 300 Absolute)
   \<and> mmap (osx_example 0) \<noteq> [] \<and> total_size (mmap (osx_example 0)) \<le> 300
   \<and> OSXMemory_Read
         (VFSHandler_Seek (osx_example 0) (total_size (mmap (osx_example 0))) 300 Absolute) 5
       = Inr ([], VFSHandler_Seek (osx_example 0) (total_size (mmap (osx_example 0))) 300 Absolute)"
proof -
  have l: "linux_size linux_example = int (length (file_data (linux_fd linux_example)))"
    "linux_size linux_example \<le> 25" "25 \<le> file_limit (linux_fd linux_example)"
    "5 \<le> alloc_limit (linux_fd linux_example)"
    by (simp_all add: linux_example_def)
  have w: "win_size (win_example 0) \<le> 300"
    by (simp add: win_example_def)
  have m: "mmap (osx_example 0) \<noteq> []" "total_size (mmap (osx_example 0)) \<le> 300"
    by (simp_all add: osx_example_def example_runs_def total_size_def)
  note t = seek_tell_and_read_past_end[of 25 linux_example 5 "win_example 0" "osx_example 0"]
  have 1: "\<exists>h'. LinuxMemory_Seek linux_example 25 0 = Inr h' \<and> LinuxMemory_Tell h' = 25
         \<and> LinuxMemory_Read h' 5 = Inr ([], h')"
    using t l by auto
  note t2 = seek_tell_and_read_past_end[of 300 linux_example 5 "win_example 0" "osx_example 0"]
  have 2: "WindowsMemory_Read (VFSHandler_Seek (win_example 0) (win_size (win_example 0)) 300 Absolute) 5
       = ([], VFSHandler_Seek (win_example 0) (win_size (win_example 0)) 300 Absolute)"
    using t2 w by blast
  have 3: "OSXMemory_Read
         (VFSHandler_Seek (osx_example 0) (total_size (mmap (osx_example 0))) 300 Absolute) 5
       = Inr ([], VFSHandler_Seek (osx_example 0) (total_size (mmap (osx_example 0))) 300 Absolute)"
    using t2 m by blast
  show ?thesis using l(1,3,4) w m 1 2 3 by blast
qed

text \<open>
  The claim as stated fails at two inputs. On Linux the offset \<open>2^63\<close> does not fit the
  signed 64-bit offset of the file object: \<^verbatim>\<open>Seek(2**63)\<close> raises (the result is an
  error, \<open>isl\<close>), so no \<^verbatim>\<open>Tell()\<close> follows. On OSX with an empty memory map, after seeking
  to 7, which is past the total size 0, \<^verbatim>\<open>Read(3)\<close> evaluates the property \<^verbatim>\<open>size\<close> in
  its loop condition and raises \<^verbatim>\<open>IndexError\<close> instead of returning no byte.
\<close>

theorem seek_tell_and_read_past_end_counterexample:
  "isl (LinuxMemory_Seek linux_example 9223372036854775808 0)
   \<and> total_size (mmap (osx_empty 0)) \<le> 7
   \<and> OSXMemory_Read (VFSHandler_Seek (osx_empty 0) (total_size (mmap (osx_empty 0))) 7 Absolute) 3
       = Inl IndexError"
proof -
  have "LinuxMemory_Seek linux_example 9223372036854775808 0 = Inl OverflowError"
    by (simp add: LinuxMemory_Seek_def file_seek_def fits_int32_def fits_int64_def)
  then have 1: "isl (LinuxMemory_Seek linux_example 9223372036854775808 0)"
    by simp
  have 2: "total_size (mmap (osx_empty 0)) \<le> 7"
    by (simp add: osx_empty_def total_size_def)
  have "mmap (VFSHandler_Seek (osx_empty 0) (total_size (mmap (osx_empty 0))) 7 Absolute) = []"
    by (simp add: VFSHandler_Seek_def osx_empty_def)
  then have 3: "OSXMemory_Read
        (VFSHandler_Seek (osx_empty 0) (total_size (mmap (osx_empty 0))) 7 Absolute) 3
       = Inl IndexError"
    by (simp add: OSX_Read_empty)
  show ?thesis using 1 2 3 by blast
qed

end
